theory Spec2Isabelle
  imports Main "HOL-Library.Multiset"
begin

section \<open>Data model\<close>

text \<open>
  The struct \<open>AsyncSlice\<close> of \<open>async_slice.go\<close>: the slice and the requested number of
  workers, a Go \<open>int\<close> (it may be negative; the code only compares it, so no arithmetic can
  overflow).
\<close>

record 'a AsyncSlice =
  data :: "'a list"
  workers :: int

text \<open>
  A call either panics (a negative size given to \<open>make(chan ...)\<close> or a negative
  \<open>WaitGroup\<close> counter), or has not returned yet under the steps scheduled so far, or
  returns a value.
\<close>

datatype 'v outcome = Panic | Blocked | Return 'v

text \<open>
  What a call did: its outcome, the indices the calling goroutine has put on the jobs
  channel, and the indices to whose elements the caller's function has been applied, in the
  order of the applications.
\<close>

datatype 'v call = Call (outcome: "'v outcome") (dispatched: "nat list") (applied: "nat list")

section \<open>The worker pool\<close>

text \<open>
  Every operation starts \<open>workers\<close> goroutines that receive indices from the buffered
  channel \<open>jobs\<close>, while the calling goroutine sends the indices in ascending order and
  then closes the channel. A worker goroutine either waits to receive, or holds an index
  it has received and not yet processed, or has returned (\<open>wg.Done()\<close>).
\<close>

datatype goroutine = Waiting | Holding nat | Returned

record 'r pool =
  unsent :: "nat list"
  sent :: "nat list"
  jobs :: "nat list"
  closed :: bool
  gs :: "goroutine list"
  shared :: 'r
  calls :: "nat list"

text \<open>\<open>workers := s.workers; if workers == 0 || workers > len(s.data) { workers = len(s.data) }\<close>\<close>

definition calc_workers :: "int \<Rightarrow> nat \<Rightarrow> int" where
  "calc_workers w n = (if w = 0 \<or> w > int n then int n else w)"

text \<open>
  The state after \<open>wg.Add(workers)\<close> and the \<open>go worker(...)\<close> loop: nothing is sent yet,
  every worker waits. \<open>r\<close> is the memory the workers write (a result slice or the result
  channel).
\<close>

definition start :: "nat list \<Rightarrow> nat \<Rightarrow> 'r \<Rightarrow> 'r pool" where
  "start js w r =
     \<lparr>unsent = js, sent = [], jobs = [], closed = False,
      gs = replicate w Waiting, shared = r, calls = []\<rparr>"

text \<open>
  One step of the calling goroutine: \<open>jobs <- i\<close> for the next index (the channel's
  capacity is the number of indices, so the send never blocks), then \<open>close(jobs)\<close>.
\<close>

definition main_step :: "'r pool \<Rightarrow> 'r pool" where
  "main_step p =
     (case unsent p of
        i # rest \<Rightarrow> p\<lparr>unsent := rest, sent := sent p @ [i], jobs := jobs p @ [i]\<rparr>
      | [] \<Rightarrow> p\<lparr>closed := True\<rparr>)"

text \<open>
  One step of worker \<open>k\<close>. The body of its loop is \<open>body index memory\<close>, which gives the
  new memory and whether the worker goes on to the next receive. A worker that waits
  receives the oldest index of the channel; on an empty channel it returns if the channel
  is closed and stays blocked otherwise.
\<close>

definition worker_step :: "(nat \<Rightarrow> 'r \<Rightarrow> 'r \<times> bool) \<Rightarrow> nat \<Rightarrow> 'r pool \<Rightarrow> 'r pool" where
  "worker_step body k p =
     (case gs p ! k of
        Returned \<Rightarrow> p
      | Holding index \<Rightarrow>
          p\<lparr>gs := (gs p)[k := if snd (body index (shared p)) then Waiting else Returned],
            shared := fst (body index (shared p)),
            calls := calls p @ [index]\<rparr>
      | Waiting \<Rightarrow>
          (case jobs p of
             index # rest \<Rightarrow> p\<lparr>jobs := rest, gs := (gs p)[k := Holding index]\<rparr>
           | [] \<Rightarrow> if closed p then p\<lparr>gs := (gs p)[k := Returned]\<rparr> else p))"

text \<open>
  A schedule is the list of the goroutines that take the next step: \<open>k\<close> below the number
  of workers is worker \<open>k\<close>, any other number is the calling goroutine.
\<close>

definition step :: "(nat \<Rightarrow> 'r \<Rightarrow> 'r \<times> bool) \<Rightarrow> nat \<Rightarrow> 'r pool \<Rightarrow> 'r pool" where
  "step body k p = (if k < length (gs p) then worker_step body k p else main_step p)"

fun run :: "(nat \<Rightarrow> 'r \<Rightarrow> 'r \<times> bool) \<Rightarrow> nat list \<Rightarrow> 'r pool \<Rightarrow> 'r pool" where
  "run body [] p = p"
| "run body (k # ks) p = run body ks (step body k p)"

text \<open>\<open>wg.Wait()\<close> returns once the jobs are closed and every worker has returned.\<close>

definition finished :: "'r pool \<Rightarrow> bool" where
  "finished p = (closed p \<and> list_all (\<lambda>g. g = Returned) (gs p))"

definition report :: "'v outcome \<Rightarrow> 'r pool \<Rightarrow> 'v call" where
  "report oc p = Call oc (sent p) (calls p)"

section \<open>The operations\<close>

subsection \<open>All and Any\<close>

text \<open>\<open>if !f(s.data[index]) { result <- false; return }\<close>: the memory is the result channel.\<close>

definition All_worker :: "'a AsyncSlice \<Rightarrow> ('a \<Rightarrow> bool) \<Rightarrow> nat \<Rightarrow> bool list \<Rightarrow> bool list \<times> bool" where
  "All_worker s f index result =
     (if \<not> f (data s ! index) then (result @ [False], False) else (result, True))"

text \<open>
  The context is cancelled only when \<open>All\<close> returns, so the \<open>ctx.Done()\<close> case of the
  worker's select plays no part in the value returned. After closing the jobs the caller
  ranges over the result channel: the first value received makes it return false, and
  the channel being closed (all workers returned) with nothing in it makes it return true.
\<close>

definition All' :: "'a AsyncSlice \<Rightarrow> ('a \<Rightarrow> bool) \<Rightarrow> nat list \<Rightarrow> bool call" where
  "All' s f sched =
     (if length (data s) = 0 then Call (Return True) [] []
      else
        let workers = calc_workers (workers s) (length (data s)) in
        if workers < 0 then Call Panic [] []
        else
          let p = run (All_worker s f) sched (start [0..<length (data s)] (nat workers) [])
          in report (if \<not> closed p then Blocked
                     else if shared p \<noteq> [] then Return False
                     else if finished p then Return True
                     else Blocked) p)"

definition Any_worker :: "'a AsyncSlice \<Rightarrow> ('a \<Rightarrow> bool) \<Rightarrow> nat \<Rightarrow> bool list \<Rightarrow> bool list \<times> bool" where
  "Any_worker s f index result =
     (if f (data s ! index) then (result @ [True], False) else (result, True))"

definition Any :: "'a AsyncSlice \<Rightarrow> ('a \<Rightarrow> bool) \<Rightarrow> nat list \<Rightarrow> bool call" where
  "Any s f sched =
     (if length (data s) = 0 then Call (Return False) [] []
      else
        let workers = calc_workers (workers s) (length (data s)) in
        if workers < 0 then Call Panic [] []
        else
          let p = run (Any_worker s f) sched (start [0..<length (data s)] (nat workers) [])
          in report (if \<not> closed p then Blocked
                     else if shared p \<noteq> [] then Return True
                     else if finished p then Return False
                     else Blocked) p)"

subsection \<open>Each, Filter and Map\<close>

text \<open>
  \<open>f(s.data[index])\<close>: \<open>Each\<close> writes no memory; what it does is the applications of \<open>f\<close>,
  which the pool records in \<open>calls\<close>.
\<close>

definition Each_worker :: "nat \<Rightarrow> unit \<Rightarrow> unit \<times> bool" where
  "Each_worker index u = (u, True)"

definition Each :: "'a AsyncSlice \<Rightarrow> nat list \<Rightarrow> unit call" where
  "Each s sched =
     (let workers = calc_workers (workers s) (length (data s)) in
      if workers < 0 then Call Panic [] []
      else
        let p = run Each_worker sched (start [0..<length (data s)] (nat workers) ())
        in report (if finished p then Return () else Blocked) p)"

text \<open>\<open>if f(s.data[index]) { resultMap[index] = true }\<close>\<close>

definition Filter_worker :: "'a AsyncSlice \<Rightarrow> ('a \<Rightarrow> bool) \<Rightarrow> nat \<Rightarrow> bool list \<Rightarrow> bool list \<times> bool" where
  "Filter_worker s f index resultMap =
     (if f (data s ! index) then (resultMap[index := True], True) else (resultMap, True))"

text \<open>\<open>for i, el := range s.data { if resultMap[i] { result = append(result, el) } }\<close>\<close>

definition compact :: "'a list \<Rightarrow> bool list \<Rightarrow> 'a list" where
  "compact xs resultMap = map (\<lambda>i. xs ! i) (filter (\<lambda>i. resultMap ! i) [0..<length xs])"

definition Filter :: "'a AsyncSlice \<Rightarrow> ('a \<Rightarrow> bool) \<Rightarrow> nat list \<Rightarrow> 'a list call" where
  "Filter s f sched =
     (let workers = calc_workers (workers s) (length (data s)) in
      if workers < 0 then Call Panic [] []
      else
        let p = run (Filter_worker s f) sched
                  (start [0..<length (data s)] (nat workers) (replicate (length (data s)) False))
        in report (if finished p then Return (compact (data s) (shared p)) else Blocked) p)"

text \<open>
  \<open>result[index] = f(s.data[index])\<close>. \<open>zero\<close> is the zero value of the result type \<open>G\<close>,
  with which \<open>make([]G, len(s.data))\<close> fills the result.
\<close>

definition Map_worker :: "'a AsyncSlice \<Rightarrow> ('a \<Rightarrow> 'g) \<Rightarrow> nat \<Rightarrow> 'g list \<Rightarrow> 'g list \<times> bool" where
  "Map_worker s f index result = (result[index := f (data s ! index)], True)"

definition Map :: "'a AsyncSlice \<Rightarrow> 'g \<Rightarrow> ('a \<Rightarrow> 'g) \<Rightarrow> nat list \<Rightarrow> 'g list call" where
  "Map s zero f sched =
     (let workers = calc_workers (workers s) (length (data s)) in
      if workers < 0 then Call Panic [] []
      else
        let p = run (Map_worker s f) sched
                  (start [0..<length (data s)] (nat workers) (replicate (length (data s)) zero))
        in report (if finished p then Return (shared p) else Blocked) p)"

subsection \<open>Reduce\<close>

text \<open>
  \<open>result <- f(state[index], state[index+1])\<close>: the memory is the sequence of the values
  sent on the result channel, which the caller appends to \<open>newState\<close> in the order
  received.
\<close>

definition Reduce_worker :: "('a \<Rightarrow> 'a \<Rightarrow> 'a) \<Rightarrow> 'a list \<Rightarrow> nat \<Rightarrow> 'a list \<Rightarrow> 'a list \<times> bool" where
  "Reduce_worker f state index result =
     (result @ [f (state ! index) (state ! (index + 1))], True)"

text \<open>
  One pass of the loop body: the jobs are \<open>for i := 0; i < len(state)-1; i += 2\<close>, and
  \<open>if len(state)%2 == 1 { newState = append(newState, state[len(state)-1]) }\<close>.
\<close>

definition Reduce_round :: "('a \<Rightarrow> 'a \<Rightarrow> 'a) \<Rightarrow> int \<Rightarrow> 'a list \<Rightarrow> nat list \<Rightarrow> 'a list call" where
  "Reduce_round f w state sched =
     (let workers = calc_workers w (length state) in
      if workers < 0 then Call Panic [] []
      else
        let p = run (Reduce_worker f state) sched
                  (start (filter even [0..<length state - 1]) (nat workers) [])
        in report (if finished p
                   then Return (shared p @
                          (if length state mod 2 = 1 then [state ! (length state - 1)] else []))
                   else Blocked) p)"

text \<open>
  \<open>for len(state) > 1 { ... state = newState }\<close>, with one schedule for each round. The
  value is the list of the working sequences, from the one the loop starts with to the one
  it ends with. When the schedules have run out the next round is started and takes no
  step.
\<close>

definition next_round :: "'a list \<Rightarrow> 'a list call \<Rightarrow> ('a list \<Rightarrow> 'a list list call) \<Rightarrow> 'a list list call" where
  "next_round state r k =
     (case outcome r of
        Panic \<Rightarrow> Call Panic (dispatched r) (applied r)
      | Blocked \<Rightarrow> Call Blocked (dispatched r) (applied r)
      | Return newState \<Rightarrow>
          (case k newState of
             Call oc d a \<Rightarrow>
               Call (case oc of Return tr \<Rightarrow> Return (state # tr) | Panic \<Rightarrow> Panic | Blocked \<Rightarrow> Blocked)
                    (dispatched r @ d) (applied r @ a)))"

fun Reduce_loop :: "('a \<Rightarrow> 'a \<Rightarrow> 'a) \<Rightarrow> int \<Rightarrow> nat list list \<Rightarrow> 'a list \<Rightarrow> 'a list list call" where
  "Reduce_loop f w [] state =
     (if length state > 1
      then next_round state (Reduce_round f w state []) (\<lambda>newState. Call Blocked [] [])
      else Call (Return [state]) [] [])"
| "Reduce_loop f w (sched # rest) state =
     (if length state > 1
      then next_round state (Reduce_round f w state sched) (Reduce_loop f w rest)
      else Call (Return [state]) [] [])"

text \<open>
  \<open>state := make([]T, len(s.data)); state = append(state, s.data...)\<close>: \<open>make\<close> with a
  length gives that many zero values, and \<open>append\<close> puts the elements after them.
  \<open>zero\<close> is the zero value of the element type \<open>T\<close>. \<open>Reduce_states\<close> gives the working
  sequences of the loop and \<open>Reduce\<close> the value \<open>state[0]\<close> returned after it.
\<close>

definition Reduce_states :: "'a AsyncSlice \<Rightarrow> 'a \<Rightarrow> ('a \<Rightarrow> 'a \<Rightarrow> 'a) \<Rightarrow> nat list list \<Rightarrow> 'a list list call" where
  "Reduce_states s zero f scheds =
     Reduce_loop f (workers s) scheds (replicate (length (data s)) zero @ data s)"

definition Reduce :: "'a AsyncSlice \<Rightarrow> 'a \<Rightarrow> ('a \<Rightarrow> 'a \<Rightarrow> 'a) \<Rightarrow> nat list list \<Rightarrow> 'a call" where
  "Reduce s zero f scheds =
     (if length (data s) = 0 then Call (Return zero) [] []
      else
        case Reduce_states s zero f scheds of
          Call oc d a \<Rightarrow>
            Call (case oc of Return tr \<Rightarrow> Return (last tr ! 0) | Panic \<Rightarrow> Panic | Blocked \<Rightarrow> Blocked) d a)"

section \<open>Bookkeeping for the proofs\<close>

text \<open>
  The indices held by the workers, the invariant of a pool started on the jobs \<open>js\<close> with
  the memory \<open>r\<close> (\<open>Q\<close> holds of the memory once a worker has stopped before the
  jobs ran out), and the number of steps a pool still has to take at most.
\<close>

fun held :: "goroutine list \<Rightarrow> nat list" where
  "held [] = []"
| "held (Holding i # ws) = i # held ws"
| "held (Waiting # ws) = held ws"
| "held (Returned # ws) = held ws"

definition pool_inv :: "(nat \<Rightarrow> 'r \<Rightarrow> 'r \<times> bool) \<Rightarrow> nat list \<Rightarrow> 'r \<Rightarrow> ('r \<Rightarrow> bool) \<Rightarrow> 'r pool \<Rightarrow> bool" where
  "pool_inv body js r Q p \<longleftrightarrow>
     sent p @ unsent p = js \<and>
     mset (calls p) + mset (held (gs p)) + mset (jobs p) = mset (sent p) \<and>
     shared p = foldl (\<lambda>m i. fst (body i m)) r (calls p) \<and>
     (closed p \<longrightarrow> unsent p = []) \<and>
     (Returned \<in> set (gs p) \<longrightarrow> (closed p \<and> jobs p = []) \<or> Q (shared p))"

fun effort :: "goroutine \<Rightarrow> nat" where
  "effort Waiting = 1"
| "effort (Holding i) = 2"
| "effort Returned = 0"

definition todo :: "'r pool \<Rightarrow> nat" where
  "todo p = 3 * length (unsent p) + 2 * length (jobs p) + (if closed p then 0 else 1)
            + sum_list (map effort (gs p))"

text \<open>
  The schedule that lets the goroutines \<open>0, \<dots>, w\<close> take one step each, \<open>n\<close> times
  over: the workers, as many as there are below \<open>w\<close>, and the caller.
\<close>

definition round_robin :: "nat \<Rightarrow> nat \<Rightarrow> nat list" where
  "round_robin w n = concat (replicate n [0..<Suc w])"

text \<open>
  The fair schedule for a pool of at most \<open>n\<close> workers on at most \<open>n\<close> jobs, and the
  fair schedules for the rounds of \<open>Reduce\<close> on a working sequence of \<open>n\<close> elements.
\<close>

definition fair :: "nat \<Rightarrow> nat list" where
  "fair n = round_robin n (4 * n + 1)"

definition fair_rounds :: "nat \<Rightarrow> nat list list" where
  "fair_rounds n = replicate n (fair n)"

text \<open>
  A list of working sequences in which every one but the last has more than one element
  and is followed by one of half its length, rounded up.
\<close>

fun halving :: "'a list list \<Rightarrow> bool" where
  "halving [] = True"
| "halving [x] = True"
| "halving (x # y # rest) =
     (1 < length x \<and> length y = (length x + 1) div 2 \<and> length y < length x \<and> halving (y # rest))"

section \<open>The pool under every schedule\<close>

lemma held_receive:
  "k < length ws \<Longrightarrow> ws ! k = Waiting \<Longrightarrow>
   mset (held (ws[k := Holding i])) = add_mset i (mset (held ws))"
proof (induction ws arbitrary: k)
  case Nil
  then show ?case by simp
next
  case (Cons g ws)
  then show ?case by (cases k; cases g) auto
qed

lemma held_release:
  "k < length ws \<Longrightarrow> ws ! k = Holding i \<Longrightarrow> g = Waiting \<or> g = Returned \<Longrightarrow>
   add_mset i (mset (held (ws[k := g]))) = mset (held ws)"
proof (induction ws arbitrary: k)
  case Nil
  then show ?case by simp
next
  case (Cons g' ws)
  then show ?case by (cases k; cases g') auto
qed

lemma held_return:
  "k < length ws \<Longrightarrow> ws ! k = Waiting \<Longrightarrow> held (ws[k := Returned]) = held ws"
proof (induction ws arbitrary: k)
  case Nil
  then show ?case by simp
next
  case (Cons g ws)
  then show ?case by (cases k; cases g) auto
qed

lemma held_all_returned: "list_all (\<lambda>g. g = Returned) ws \<Longrightarrow> held ws = []"
  by (induction ws) auto

lemma pool_inv_start: "pool_inv body js r Q (start js w r)"
  by (simp add: pool_inv_def start_def) (induction w; simp)

lemma pool_inv_main:
  assumes "pool_inv body js r Q p"
  shows "pool_inv body js r Q (main_step p)"
proof (cases "unsent p")
  case Nil
  with assms show ?thesis by (auto simp: pool_inv_def main_step_def)
next
  case (Cons i rest)
  with assms have "\<not> closed p" by (auto simp: pool_inv_def)
  with assms Cons show ?thesis by (auto simp: pool_inv_def main_step_def)
qed

lemma pool_inv_worker:
  assumes inv: "pool_inv body js r Q p" and k: "k < length (gs p)"
    and stop: "\<And>i m. \<not> snd (body i m) \<Longrightarrow> Q (fst (body i m))"
    and keep: "\<And>i m. Q m \<Longrightarrow> Q (fst (body i m))"
  shows "pool_inv body js r Q (worker_step body k p)"
proof -
  from inv have s: "sent p @ unsent p = js"
    and m: "mset (calls p) + mset (held (gs p)) + mset (jobs p) = mset (sent p)"
    and f: "shared p = foldl (\<lambda>m i. fst (body i m)) r (calls p)"
    and c: "closed p \<longrightarrow> unsent p = []"
    and q: "Returned \<in> set (gs p) \<longrightarrow> (closed p \<and> jobs p = []) \<or> Q (shared p)"
    unfolding pool_inv_def by blast+
  have sub: "Returned \<in> set ((gs p)[k := g]) \<Longrightarrow> g \<noteq> Returned \<Longrightarrow> Returned \<in> set (gs p)" for g
    using set_update_subset_insert[of "gs p" k g] by auto
  show ?thesis
  proof (cases "gs p ! k")
    case Returned
    with inv show ?thesis by (simp add: worker_step_def)
  next
    case (Holding i)
    define g where "g = (if snd (body i (shared p)) then Waiting else Returned)"
    have step: "worker_step body k p =
        p\<lparr>gs := (gs p)[k := g], shared := fst (body i (shared p)), calls := calls p @ [i]\<rparr>"
      using Holding by (simp add: worker_step_def g_def)
    have "add_mset i (mset (held ((gs p)[k := g]))) = mset (held (gs p))"
      by (rule held_release[OF k Holding]) (simp add: g_def)
    from this[symmetric] m
    have m': "mset (calls p @ [i]) + mset (held ((gs p)[k := g])) + mset (jobs p) = mset (sent p)"
      by simp
    have q': "Returned \<in> set ((gs p)[k := g]) \<longrightarrow>
        (closed p \<and> jobs p = []) \<or> Q (fst (body i (shared p)))"
    proof (cases "snd (body i (shared p))")
      case True
      then have "g = Waiting" by (simp add: g_def)
      with sub[of Waiting] q keep[of "shared p" i] show ?thesis by auto
    next
      case False
      with stop[of i "shared p"] show ?thesis by simp
    qed
    show ?thesis
      unfolding step pool_inv_def using s m' f c q' by simp
  next
    case Waiting
    show ?thesis
    proof (cases "jobs p")
      case Nil
      show ?thesis
      proof (cases "closed p")
        case True
        with Nil Waiting have step: "worker_step body k p = p\<lparr>gs := (gs p)[k := Returned]\<rparr>"
          by (simp add: worker_step_def)
        show ?thesis
          unfolding step pool_inv_def using s m f c True Nil held_return[OF k Waiting] by simp
      next
        case False
        with Nil Waiting inv show ?thesis by (simp add: worker_step_def)
      qed
    next
      case (Cons i rest)
      with Waiting have step: "worker_step body k p = p\<lparr>jobs := rest, gs := (gs p)[k := Holding i]\<rparr>"
        by (simp add: worker_step_def)
      have m': "mset (calls p) + mset (held ((gs p)[k := Holding i])) + mset rest = mset (sent p)"
        using m Cons held_receive[OF k Waiting, of i] by simp
      have q': "Returned \<in> set ((gs p)[k := Holding i]) \<longrightarrow> Q (shared p)"
        using sub[of "Holding i"] q Cons by auto
      show ?thesis
        unfolding step pool_inv_def using s m' f c q' by simp
    qed
  qed
qed

lemma pool_inv_run:
  assumes stop: "\<And>i m. \<not> snd (body i m) \<Longrightarrow> Q (fst (body i m))"
    and keep: "\<And>i m. Q m \<Longrightarrow> Q (fst (body i m))"
  shows "pool_inv body js r Q p \<Longrightarrow> pool_inv body js r Q (run body sched p)"
proof (induction sched arbitrary: p)
  case Nil
  then show ?case by simp
next
  case (Cons k ks)
  have "pool_inv body js r Q (step body k p)"
  proof (cases "k < length (gs p)")
    case True
    from pool_inv_worker[OF Cons.prems True stop keep] True show ?thesis
      by (simp add: step_def)
  next
    case False
    with pool_inv_main[OF Cons.prems] show ?thesis by (simp add: step_def)
  qed
  then show ?case using Cons.IH by simp
qed

lemma run_append: "run body (ks @ ls) p = run body ls (run body ks p)"
  by (induction ks arbitrary: p) simp_all

lemma length_gs_step: "length (gs (step body k p)) = length (gs p)"
  by (auto simp: step_def worker_step_def main_step_def split: goroutine.splits list.splits)

lemma length_gs_run: "length (gs (run body sched p)) = length (gs p)"
  by (induction sched arbitrary: p) (simp_all add: length_gs_step)

lemma pool_inv_finished:
  assumes inv: "pool_inv body js r Q p" and fin: "finished p"
    and w: "gs p \<noteq> [] \<or> js = []" and nq: "\<not> Q (shared p)"
  shows "mset (calls p) = mset js" and "sent p = js"
    and "shared p = foldl (\<lambda>m i. fst (body i m)) r (calls p)"
proof -
  from fin have cl: "closed p" and all: "list_all (\<lambda>g. g = Returned) (gs p)"
    by (simp_all add: finished_def)
  from inv cl show s: "sent p = js" by (auto simp: pool_inv_def)
  from inv show "shared p = foldl (\<lambda>m i. fst (body i m)) r (calls p)"
    by (simp add: pool_inv_def)
  have "jobs p = []"
  proof (cases "gs p")
    case Nil
    with w have "js = []" by simp
    with inv s show ?thesis by (simp add: pool_inv_def)
  next
    case (Cons g rest)
    with all have "Returned \<in> set (gs p)" by simp
    with inv nq show ?thesis by (simp add: pool_inv_def)
  qed
  with inv s held_all_returned[OF all] show "mset (calls p) = mset js"
    by (simp add: pool_inv_def)
qed

lemma effort_update:
  "k < length ws \<Longrightarrow>
   sum_list (map effort (ws[k := g])) + effort (ws ! k) = sum_list (map effort ws) + effort g"
proof (induction ws arbitrary: k)
  case Nil
  then show ?case by simp
next
  case (Cons g' ws)
  then show ?case by (cases k) (simp_all add: add.assoc add.left_commute)
qed

lemma todo_main: "\<not> closed p \<Longrightarrow> todo (main_step p) < todo p"
  by (auto simp: todo_def main_step_def split: list.splits)

lemma todo_worker:
  assumes k: "k < length (gs p)" and nr: "gs p ! k \<noteq> Returned" and cl: "closed p"
  shows "todo (worker_step body k p) < todo p"
proof (cases "gs p ! k")
  case Returned
  with nr show ?thesis by simp
next
  case (Holding i)
  with effort_update[OF k, of Waiting] effort_update[OF k, of Returned] show ?thesis
    by (auto simp: todo_def worker_step_def)
next
  case Waiting
  with cl effort_update[OF k, of Returned] effort_update[OF k, of "Holding i" for i] show ?thesis
    by (auto simp: todo_def worker_step_def split: list.splits)
qed

text \<open>
  No deadlock: in a pool that has not finished some goroutine can take a step that brings
  the pool nearer to the end (the caller until the jobs are closed, then any worker that
  has not returned).
\<close>

lemma some_step_enabled:
  assumes "\<not> finished p"
  shows "\<exists>k. todo (step body k p) < todo p"
proof (cases "closed p")
  case False
  from todo_main[OF False] have "todo (step body (length (gs p)) p) < todo p"
    by (simp add: step_def)
  then show ?thesis ..
next
  case True
  with assms obtain k where k: "k < length (gs p)" and nr: "gs p ! k \<noteq> Returned"
    by (auto simp: finished_def list_all_length)
  from todo_worker[OF k nr True] k have "todo (step body k p) < todo p"
    by (simp add: step_def)
  then show ?thesis ..
qed

text \<open>
  No step is wasted for ever: a step either leaves the pool as it is (a blocked or returned
  goroutine was scheduled) or brings it nearer to the end, so a schedule holds at most
  \<open>todo\<close> steps that change the pool.
\<close>

lemma step_progress: "step body k p = p \<or> todo (step body k p) < todo p"
proof (cases "k < length (gs p)")
  case False
  show ?thesis
  proof (cases "closed p")
    case True
    then have "main_step p = p \<or> todo (main_step p) < todo p"
      by (cases "unsent p") (simp_all add: main_step_def todo_def)
    with False show ?thesis by (simp add: step_def)
  next
    case nc: False
    with False todo_main[OF nc] show ?thesis by (simp add: step_def)
  qed
next
  case k: True
  have "worker_step body k p = p \<or> todo (worker_step body k p) < todo p"
  proof (cases "gs p ! k")
    case Returned
    then show ?thesis by (simp add: worker_step_def)
  next
    case (Holding i)
    with effort_update[OF k, of Waiting] effort_update[OF k, of Returned] show ?thesis
      by (auto simp: todo_def worker_step_def)
  next
    case Waiting
    with effort_update[OF k, of Returned] effort_update[OF k, of "Holding i" for i] show ?thesis
      by (auto simp: todo_def worker_step_def split: list.splits)
  qed
  with k show ?thesis by (simp add: step_def)
qed

text \<open>
  Hence the round-robin schedule ends every pool: a pass over all goroutines changes a
  pool that has not finished, so \<open>todo\<close> passes are enough, from any state.
\<close>

lemma todo_run_le: "todo (run body ks p) \<le> todo p"
proof (induction ks arbitrary: p)
  case Nil
  then show ?case by simp
next
  case (Cons k ks)
  from step_progress[of body k p] have "todo (step body k p) \<le> todo p" by auto
  with Cons[of "step body k p"] show ?case by simp
qed

lemma todo_run_less: "run body ks p \<noteq> p \<Longrightarrow> todo (run body ks p) < todo p"
proof (induction ks arbitrary: p)
  case Nil
  then show ?case by simp
next
  case (Cons k ks)
  show ?case
  proof (cases "step body k p = p")
    case True
    with Cons show ?thesis by simp
  next
    case False
    with step_progress[of body k p] have "todo (step body k p) < todo p" by simp
    with todo_run_le[of body ks "step body k p"] show ?thesis by simp
  qed
qed

lemma step_main: "length (gs p) \<le> k \<Longrightarrow> step body k p = step body (length (gs p)) p"
  by (simp add: step_def)

lemma effective_in_list:
  assumes k: "todo (step body k p) < todo p"
  shows "todo (run body (pre @ k # post) p) < todo p"
proof -
  have eq: "run body (pre @ k # post) p = run body post (step body k (run body pre p))"
    by (simp add: run_append)
  show ?thesis
  proof (cases "run body pre p = p")
    case True
    with eq have "todo (run body (pre @ k # post) p) \<le> todo (step body k p)"
      by (simp add: todo_run_le)
    with k show ?thesis by simp
  next
    case False
    have "todo (run body (pre @ k # post) p) \<le> todo (step body k (run body pre p))"
      unfolding eq by (rule todo_run_le)
    also have "\<dots> \<le> todo (run body pre p)"
      using step_progress[of body k "run body pre p"] by auto
    also have "\<dots> < todo p" by (rule todo_run_less[OF False])
    finally show ?thesis .
  qed
qed

lemma pass_progress:
  assumes nf: "\<not> finished p" and W: "length (gs p) \<le> W"
  shows "todo (run body [0..<Suc W] p) < todo p"
proof -
  from some_step_enabled[OF nf] obtain k0 where k0: "todo (step body k0 p) < todo p" by blast
  define k where "k = min k0 (length (gs p))"
  have "step body k p = step body k0 p"
    using step_main[of p k0 body] by (cases "k0 \<le> length (gs p)") (simp_all add: k_def min_def)
  with k0 have k: "todo (step body k p) < todo p" by simp
  have "k \<le> length (gs p)" by (simp add: k_def)
  with W have "k < Suc W" by arith
  then have "k \<in> set [0..<Suc W]" by (simp only: set_upt atLeastLessThan_iff) simp
  then obtain pre post where "[0..<Suc W] = pre @ k # post"
    by (meson split_list)
  then show ?thesis by (simp only: effective_in_list[OF k])
qed

lemma finished_step: "finished p \<Longrightarrow> finished (step body k p)"
  by (auto simp: finished_def step_def main_step_def worker_step_def list_all_length
      split: list.splits)

lemma finished_run: "finished p \<Longrightarrow> finished (run body ks p)"
  by (induction ks arbitrary: p) (simp_all add: finished_step)

lemma round_robin_finishes:
  "todo p \<le> n \<Longrightarrow> length (gs p) \<le> W \<Longrightarrow> finished (run body (round_robin W n) p)"
proof (induction n arbitrary: p)
  case 0
  then have "\<not> \<not> finished p" using some_step_enabled[of p body] by auto
  then show ?case by (simp add: round_robin_def)
next
  case (Suc n)
  show ?case
  proof (cases "finished p")
    case True
    then show ?thesis by (rule finished_run)
  next
    case False
    let ?p = "run body [0..<Suc W] p"
    have len: "length (gs ?p) \<le> W" using Suc.prems(2) by (simp only: length_gs_run)
    from pass_progress[OF False Suc.prems(2), of body] Suc.prems(1) have "todo ?p \<le> n" by simp
    from Suc.IH[OF this len] have "finished (run body (round_robin W n) ?p)" .
    moreover have "round_robin W (Suc n) = [0..<Suc W] @ round_robin W n"
      by (simp add: round_robin_def)
    ultimately show ?thesis by (simp only: run_append)
  qed
qed

text \<open>
  In particular a pool started with \<open>w\<close> workers on the jobs \<open>js\<close> has finished after any
  steps followed by \<open>3 * length js + w + 1\<close> round-robin passes.
\<close>

lemma todo_start: "todo (start js w r) = 3 * length js + w + 1"
  by (simp add: todo_def start_def) (induction w; simp)

lemma pool_round_robin:
  assumes "3 * length js + w + 1 \<le> n" and "w \<le> W"
  shows "finished (run body (sched @ round_robin W n) (start js w r))"
proof -
  let ?p = "run body sched (start js w r)"
  have "todo ?p \<le> todo (start js w r)" by (rule todo_run_le)
  with assms(1) have t: "todo ?p \<le> n" by (simp add: todo_start)
  have "length (gs ?p) = w" by (simp add: length_gs_run start_def)
  with assms(2) have "length (gs ?p) \<le> W" by simp
  from round_robin_finishes[OF t this] show ?thesis by (simp only: run_append)
qed

lemma pool_inv_calls: "pool_inv body js r Q p \<Longrightarrow> set (calls p) \<subseteq> set js"
proof
  fix x assume inv: "pool_inv body js r Q p" and "x \<in> set (calls p)"
  then have "x \<in># mset (calls p) + mset (held (gs p)) + mset (jobs p)" by simp
  with inv have "x \<in># mset (sent p)" by (simp add: pool_inv_def)
  moreover from inv have "set (sent p) \<subseteq> set js" by (auto simp: pool_inv_def)
  ultimately show "x \<in> set js" by auto
qed

lemma calc_workers_pos: "\<not> calc_workers w n < 0 \<Longrightarrow> 0 < n \<Longrightarrow> 0 < nat (calc_workers w n)"
  by (auto simp: calc_workers_def split: if_splits)

lemma calc_workers_nonneg: "0 \<le> w \<Longrightarrow> \<not> calc_workers w n < 0"
  by (auto simp: calc_workers_def)

lemma calc_workers_le: "0 \<le> w \<Longrightarrow> nat (calc_workers w n) \<le> n"
  by (auto simp: calc_workers_def)

lemma pool_fair:
  assumes "length js \<le> n" and "w \<le> n"
  shows "finished (run body (sched @ fair n) (start js w r))"
  unfolding fair_def using assms by (intro pool_round_robin) simp_all

text \<open>What a pool that has finished has done, for a worker body that never stops early.\<close>

lemma pool_finished:
  assumes go: "\<And>i m. snd (body i m)"
    and fin: "finished (run body sched (start js w r))"
    and w: "0 < w \<or> js = []"
  shows "mset (calls (run body sched (start js w r))) = mset js"
    and "sent (run body sched (start js w r)) = js"
    and "shared (run body sched (start js w r)) =
         foldl (\<lambda>m i. fst (body i m)) r (calls (run body sched (start js w r)))"
proof -
  let ?p = "run body sched (start js w r)"
  have inv: "pool_inv body js r (\<lambda>_. False) ?p"
    by (rule pool_inv_run[OF _ _ pool_inv_start]) (simp_all add: go)
  have "length (gs ?p) = w" by (simp add: length_gs_run start_def)
  with w have w': "gs ?p \<noteq> [] \<or> js = []" by auto
  from pool_inv_finished[OF inv fin w']
  show "mset (calls ?p) = mset js" and "sent ?p = js"
    and "shared ?p = foldl (\<lambda>m i. fst (body i m)) r (calls ?p)" by simp_all
qed

lemma mset_upt_set: "mset is = mset [0..<n] \<Longrightarrow> set is = {0..<n}"
  by (metis mset_eq_setD atLeastLessThan_upt)

subsection \<open>Map\<close>

lemma foldl_Map_worker:
  "length (foldl (\<lambda>m i. fst (Map_worker s f i m)) m is) = length m \<and>
   (\<forall>i < length m. foldl (\<lambda>m i. fst (Map_worker s f i m)) m is ! i =
      (if i \<in> set is then f (data s ! i) else m ! i))"
proof (induction "is" arbitrary: m)
  case Nil
  then show ?case by simp
next
  case (Cons j js)
  show ?case using Cons[of "m[j := f (data s ! j)]"]
    by (auto simp: Map_worker_def nth_list_update)
qed

lemma Map_Return:
  assumes "outcome (Map s zero f sched) = Return ys"
  shows "ys = map f (data s)"
proof -
  let ?n = "length (data s)"
  let ?w = "nat (calc_workers (workers s) ?n)"
  let ?p = "run (Map_worker s f) sched (start [0..<?n] ?w (replicate ?n zero))"
  from assms have nn: "\<not> calc_workers (workers s) ?n < 0" and fin: "finished ?p"
    and ys: "ys = shared ?p"
    by (auto simp: Map_def Let_def report_def split: if_splits)
  have w: "0 < ?w \<or> [0..<?n] = []" using calc_workers_pos[OF nn] by auto
  have go: "\<And>i m. snd (Map_worker s f i m)" by (simp add: Map_worker_def)
  from pool_finished[OF go fin w]
  have c: "mset (calls ?p) = mset [0..<?n]"
    and sh: "shared ?p = foldl (\<lambda>m i. fst (Map_worker s f i m)) (replicate ?n zero) (calls ?p)"
    by simp_all
  from c have set: "set (calls ?p) = {0..<?n}" by (rule mset_upt_set)
  show ?thesis
  proof (rule nth_equalityI)
    show "length ys = length (map f (data s))"
      using foldl_Map_worker[of s f "replicate ?n zero" "calls ?p"] by (simp add: ys sh)
  next
    fix i assume "i < length ys"
    then have i: "i < ?n"
      using foldl_Map_worker[of s f "replicate ?n zero" "calls ?p"] by (simp add: ys sh)
    with set foldl_Map_worker[of s f "replicate ?n zero" "calls ?p"]
    show "ys ! i = map f (data s) ! i" by (simp add: ys sh)
  qed
qed

lemma Map_fair:
  assumes "0 \<le> workers s"
  shows "outcome (Map s zero f (sched @ fair (length (data s)))) = Return (map f (data s))"
proof -
  let ?n = "length (data s)"
  have "finished (run (Map_worker s f) (sched @ fair ?n)
      (start [0..<?n] (nat (calc_workers (workers s) ?n)) (replicate ?n zero)))"
    using calc_workers_le[OF assms] by (intro pool_fair) simp_all
  with calc_workers_nonneg[OF assms, of ?n]
  obtain ys where ys: "outcome (Map s zero f (sched @ fair ?n)) = Return ys"
    by (simp add: Map_def Let_def report_def)
  from Map_Return[OF ys] ys show ?thesis by simp
qed

subsection \<open>Filter\<close>

lemma foldl_Filter_worker:
  "length (foldl (\<lambda>m i. fst (Filter_worker s f i m)) m is) = length m \<and>
   (\<forall>i < length m. foldl (\<lambda>m i. fst (Filter_worker s f i m)) m is ! i =
      (m ! i \<or> (i \<in> set is \<and> f (data s ! i))))"
proof (induction "is" arbitrary: m)
  case Nil
  then show ?case by simp
next
  case (Cons j js)
  define m' where "m' = fst (Filter_worker s f j m)"
  have len: "length m' = length m" by (simp add: m'_def Filter_worker_def)
  have one: "m' ! i = (m ! i \<or> (i = j \<and> f (data s ! i)))" if "i < length m" for i
    using that by (cases "i = j") (simp_all add: m'_def Filter_worker_def)
  from Cons[of m'] len
  have "length (foldl (\<lambda>m i. fst (Filter_worker s f i m)) m' js) = length m"
    and "\<forall>i < length m. foldl (\<lambda>m i. fst (Filter_worker s f i m)) m' js ! i =
           (m' ! i \<or> (i \<in> set js \<and> f (data s ! i)))" by simp_all
  with one show ?case unfolding m'_def by auto
qed

lemma compact_filter:
  assumes "\<forall>i < length xs. resultMap ! i = f (xs ! i)"
  shows "compact xs resultMap = filter f xs"
proof -
  have "filter (\<lambda>i. resultMap ! i) [0..<length xs] = filter (\<lambda>i. f (xs ! i)) [0..<length xs]"
    using assms by (intro filter_cong) simp_all
  then have "compact xs resultMap = map (\<lambda>i. xs ! i) (filter (f \<circ> (\<lambda>i. xs ! i)) [0..<length xs])"
    by (simp add: compact_def comp_def)
  also have "\<dots> = filter f (map (\<lambda>i. xs ! i) [0..<length xs])"
    by (simp add: filter_map)
  finally show ?thesis by (simp add: map_nth)
qed

lemma Filter_Return:
  assumes "outcome (Filter s f sched) = Return ys"
  shows "ys = filter f (data s)"
proof -
  let ?n = "length (data s)"
  let ?w = "nat (calc_workers (workers s) ?n)"
  let ?p = "run (Filter_worker s f) sched (start [0..<?n] ?w (replicate ?n False))"
  from assms have nn: "\<not> calc_workers (workers s) ?n < 0" and fin: "finished ?p"
    and ys: "ys = compact (data s) (shared ?p)"
    by (auto simp: Filter_def Let_def report_def split: if_splits)
  have w: "0 < ?w \<or> [0..<?n] = []" using calc_workers_pos[OF nn] by auto
  have go: "\<And>i m. snd (Filter_worker s f i m)" by (simp add: Filter_worker_def)
  from pool_finished[OF go fin w]
  have c: "mset (calls ?p) = mset [0..<?n]"
    and sh: "shared ?p = foldl (\<lambda>m i. fst (Filter_worker s f i m)) (replicate ?n False) (calls ?p)"
    by simp_all
  from c have set: "set (calls ?p) = {0..<?n}" by (rule mset_upt_set)
  have "\<forall>i < ?n. shared ?p ! i = f (data s ! i)"
    using set foldl_Filter_worker[of s f "replicate ?n False" "calls ?p"] by (simp add: sh)
  then show ?thesis unfolding ys by (rule compact_filter)
qed

lemma Filter_fair:
  assumes "0 \<le> workers s"
  shows "outcome (Filter s f (sched @ fair (length (data s)))) = Return (filter f (data s))"
proof -
  let ?n = "length (data s)"
  have "finished (run (Filter_worker s f) (sched @ fair ?n)
      (start [0..<?n] (nat (calc_workers (workers s) ?n)) (replicate ?n False)))"
    using calc_workers_le[OF assms] by (intro pool_fair) simp_all
  with calc_workers_nonneg[OF assms, of ?n]
  obtain ys where ys: "outcome (Filter s f (sched @ fair ?n)) = Return ys"
    by (simp add: Filter_def Let_def report_def)
  from Filter_Return[OF ys] ys show ?thesis by simp
qed

subsection \<open>Each\<close>

lemma Each_Return:
  assumes "outcome (Each s sched) = Return u"
  shows "mset (applied (Each s sched)) = mset [0..<length (data s)]"
    and "dispatched (Each s sched) = [0..<length (data s)]"
proof -
  let ?n = "length (data s)"
  let ?w = "nat (calc_workers (workers s) ?n)"
  let ?p = "run Each_worker sched (start [0..<?n] ?w ())"
  from assms have nn: "\<not> calc_workers (workers s) ?n < 0" and fin: "finished ?p"
    by (auto simp: Each_def Let_def report_def split: if_splits)
  have w: "0 < ?w \<or> [0..<?n] = []" using calc_workers_pos[OF nn] by auto
  have go: "\<And>i m. snd (Each_worker i m)" by (simp add: Each_worker_def)
  from pool_finished(1,2)[OF go fin w] nn
  show "mset (applied (Each s sched)) = mset [0..<length (data s)]"
    and "dispatched (Each s sched) = [0..<length (data s)]"
    by (simp_all add: Each_def Let_def report_def)
qed

lemma mset_map_nth: "mset is = mset [0..<length xs] \<Longrightarrow> mset (map (\<lambda>i. xs ! i) is) = mset xs"
proof -
  assume "mset is = mset [0..<length xs]"
  then have "mset (map (\<lambda>i. xs ! i) is) = mset (map (\<lambda>i. xs ! i) [0..<length xs])"
    by (metis mset_map)
  then show ?thesis by (simp add: map_nth)
qed

lemma Each_fair:
  assumes "0 \<le> workers s"
  shows "outcome (Each s (sched @ fair (length (data s)))) = Return ()"
proof -
  let ?n = "length (data s)"
  have "finished (run Each_worker (sched @ fair ?n)
      (start [0..<?n] (nat (calc_workers (workers s) ?n)) ()))"
    using calc_workers_le[OF assms] by (intro pool_fair) simp_all
  with calc_workers_nonneg[OF assms, of ?n]
  show ?thesis by (simp add: Each_def Let_def report_def)
qed

subsection \<open>All and Any\<close>

lemma foldl_All_worker:
  "(foldl (\<lambda>m i. fst (All_worker s f i m)) m is = []) \<longleftrightarrow>
   (m = [] \<and> (\<forall>i \<in> set is. f (data s ! i)))"
  by (induction "is" arbitrary: m) (auto simp: All_worker_def)

lemma foldl_Any_worker:
  "(foldl (\<lambda>m i. fst (Any_worker s f i m)) m is = []) \<longleftrightarrow>
   (m = [] \<and> (\<forall>i \<in> set is. \<not> f (data s ! i)))"
  by (induction "is" arbitrary: m) (auto simp: Any_worker_def)

text \<open>
  A pool whose workers stop at an index where \<open>stops\<close> holds, leaving the memory non-empty:
  the memory is empty exactly if no index processed so far stops, and a pool that
  finishes with an empty memory has processed every index.
\<close>

lemma pool_search:
  assumes nil: "\<And>m is. (foldl (\<lambda>m i. fst (body i m)) m is = []) \<longleftrightarrow>
                  (m = [] \<and> (\<forall>i \<in> set is. \<not> stops i))"
    and snd: "\<And>i m. snd (body i m) \<longleftrightarrow> \<not> stops i"
    and w: "0 < w"
  shows "shared (run body sched (start [0..<n] w [])) \<noteq> [] \<Longrightarrow> \<exists>i < n. stops i"
    and "shared (run body sched (start [0..<n] w [])) = [] \<Longrightarrow>
         finished (run body sched (start [0..<n] w [])) \<Longrightarrow> \<forall>i < n. \<not> stops i"
proof -
  define p where "p = run body sched (start [0..<n] w [])"
  have step: "fst (body i m) \<noteq> []" if "m \<noteq> [] \<or> stops i" for i m
    using nil[of m "[i]"] that by auto
  have inv: "pool_inv body [0..<n] [] (\<lambda>m. m \<noteq> []) p"
    unfolding p_def
  proof (rule pool_inv_run[OF _ _ pool_inv_start])
    show "\<And>i m. \<not> snd (body i m) \<Longrightarrow> fst (body i m) \<noteq> []" using step snd by simp
    show "\<And>i m. m \<noteq> [] \<Longrightarrow> fst (body i m) \<noteq> []" using step by simp
  qed
  then have sh: "shared p = foldl (\<lambda>m i. fst (body i m)) [] (calls p)"
    by (simp add: pool_inv_def)
  {
    assume "shared (run body sched (start [0..<n] w [])) \<noteq> []"
    then have "shared p \<noteq> []" by (simp add: p_def)
    with sh nil[of "[]" "calls p"] obtain i where i: "i \<in> set (calls p)" and st: "stops i"
      by auto
    from i pool_inv_calls[OF inv] have "i \<in> set [0..<n]" by (rule subsetD[rotated])
    with st show "\<exists>i < n. stops i" by auto
  }
  {
    assume "shared (run body sched (start [0..<n] w [])) = []"
      and "finished (run body sched (start [0..<n] w []))"
    then have e: "shared p = []" and fin: "finished p" by (simp_all add: p_def)
    have "length (gs p) = w" by (simp add: p_def length_gs_run start_def)
    with w have "gs p \<noteq> [] \<or> [0..<n] = []" by auto
    from pool_inv_finished(1)[OF inv fin this] e
    have "set (calls p) = {0..<n}" by (simp add: mset_upt_set)
    with sh e nil[of "[]" "calls p"] show "\<forall>i < n. \<not> stops i" by auto
  }
qed

lemma All_Return:
  assumes "outcome (All' s f sched) = Return b"
  shows "b = (\<forall>x \<in> set (data s). f x)"
proof (cases "length (data s) = 0")
  case True
  with assms show ?thesis by (simp add: All'_def)
next
  case False
  let ?n = "length (data s)"
  let ?w = "nat (calc_workers (workers s) ?n)"
  let ?p = "run (All_worker s f) sched (start [0..<?n] ?w [])"
  from assms False have nn: "\<not> calc_workers (workers s) ?n < 0"
    and b: "(shared ?p \<noteq> [] \<and> \<not> b) \<or> (shared ?p = [] \<and> finished ?p \<and> b)"
    by (auto simp: All'_def Let_def report_def split: if_splits)
  have w: "0 < ?w" using calc_workers_pos[OF nn] False by simp
  note ps = pool_search[of "All_worker s f" "\<lambda>i. \<not> f (data s ! i)" ?w sched ?n,
      OF _ _ w]
  have 1: "shared ?p \<noteq> [] \<Longrightarrow> \<exists>i < ?n. \<not> f (data s ! i)"
    by (rule ps(1)) (simp_all add: foldl_All_worker, simp add: All_worker_def)
  have 2: "shared ?p = [] \<Longrightarrow> finished ?p \<Longrightarrow> \<forall>i < ?n. \<not> \<not> f (data s ! i)"
    by (rule ps(2)) (simp_all add: foldl_All_worker, simp add: All_worker_def)
  from b 1 2 show ?thesis by (auto simp: all_set_conv_all_nth)
qed

lemma Any_Return:
  assumes "outcome (Any s f sched) = Return b"
  shows "b = (\<exists>x \<in> set (data s). f x)"
proof (cases "length (data s) = 0")
  case True
  with assms show ?thesis by (simp add: Any_def)
next
  case False
  let ?n = "length (data s)"
  let ?w = "nat (calc_workers (workers s) ?n)"
  let ?p = "run (Any_worker s f) sched (start [0..<?n] ?w [])"
  from assms False have nn: "\<not> calc_workers (workers s) ?n < 0"
    and b: "(shared ?p \<noteq> [] \<and> b) \<or> (shared ?p = [] \<and> finished ?p \<and> \<not> b)"
    by (auto simp: Any_def Let_def report_def split: if_splits)
  have w: "0 < ?w" using calc_workers_pos[OF nn] False by simp
  note ps = pool_search[of "Any_worker s f" "\<lambda>i. f (data s ! i)" ?w sched ?n, OF _ _ w]
  have 1: "shared ?p \<noteq> [] \<Longrightarrow> \<exists>i < ?n. f (data s ! i)"
    by (rule ps(1)) (simp_all add: foldl_Any_worker, simp add: Any_worker_def)
  have 2: "shared ?p = [] \<Longrightarrow> finished ?p \<Longrightarrow> \<forall>i < ?n. \<not> f (data s ! i)"
    by (rule ps(2)) (simp_all add: foldl_Any_worker, simp add: Any_worker_def)
  have "(\<exists>x \<in> set (data s). f x) \<longleftrightarrow> (\<exists>i < ?n. f (data s ! i))"
    by (metis in_set_conv_nth)
  with b 1 2 show ?thesis by blast
qed

lemma All_fair:
  assumes "0 \<le> workers s"
  shows "outcome (All' s f (sched @ fair (length (data s)))) = Return (\<forall>x \<in> set (data s). f x)"
proof -
  let ?n = "length (data s)"
  have "finished (run (All_worker s f) (sched @ fair ?n)
      (start [0..<?n] (nat (calc_workers (workers s) ?n)) []))"
    using calc_workers_le[OF assms] by (intro pool_fair) simp_all
  with calc_workers_nonneg[OF assms, of ?n]
  have "\<exists>b. outcome (All' s f (sched @ fair ?n)) = Return b"
    by (auto simp: All'_def Let_def report_def finished_def)
  then obtain b where b: "outcome (All' s f (sched @ fair ?n)) = Return b" ..
  from All_Return[OF b] b show ?thesis by simp
qed

lemma Any_fair:
  assumes "0 \<le> workers s"
  shows "outcome (Any s f (sched @ fair (length (data s)))) = Return (\<exists>x \<in> set (data s). f x)"
proof -
  let ?n = "length (data s)"
  have "finished (run (Any_worker s f) (sched @ fair ?n)
      (start [0..<?n] (nat (calc_workers (workers s) ?n)) []))"
    using calc_workers_le[OF assms] by (intro pool_fair) simp_all
  with calc_workers_nonneg[OF assms, of ?n]
  have "\<exists>b. outcome (Any s f (sched @ fair ?n)) = Return b"
    by (auto simp: Any_def Let_def report_def finished_def)
  then obtain b where b: "outcome (Any s f (sched @ fair ?n)) = Return b" ..
  from Any_Return[OF b] b show ?thesis by simp
qed

subsection \<open>Reduce\<close>

lemma length_filter_even: "length (filter even [0..<m]) = (m + 1) div 2"
  by (induction m) auto

lemma foldl_Reduce_worker:
  "foldl (\<lambda>m i. fst (Reduce_worker f st i m)) m is =
   m @ map (\<lambda>i. f (st ! i) (st ! (i + 1))) is"
  by (induction "is" arbitrary: m) (simp_all add: Reduce_worker_def)

lemma Reduce_round_Return:
  assumes r: "outcome (Reduce_round f w st sched) = Return ns" and pos: "0 < length st"
  shows "\<exists>is. mset is = mset (filter even [0..<length st - 1]) \<and>
           ns = map (\<lambda>i. f (st ! i) (st ! (i + 1))) is @
                (if length st mod 2 = 1 then [st ! (length st - 1)] else [])"
proof -
  let ?js = "filter even [0..<length st - 1]"
  let ?w = "nat (calc_workers w (length st))"
  let ?p = "run (Reduce_worker f st) sched (start ?js ?w [])"
  from r have nn: "\<not> calc_workers w (length st) < 0" and fin: "finished ?p"
    and ns: "ns = shared ?p @ (if length st mod 2 = 1 then [st ! (length st - 1)] else [])"
    by (auto simp: Reduce_round_def Let_def report_def split: if_splits)
  have w: "0 < ?w \<or> ?js = []" using calc_workers_pos[OF nn pos] by simp
  have go: "\<And>i m. snd (Reduce_worker f st i m)" by (simp add: Reduce_worker_def)
  from pool_finished(1,3)[OF go fin w]
  have "mset (calls ?p) = mset ?js"
    and "shared ?p = map (\<lambda>i. f (st ! i) (st ! (i + 1))) (calls ?p)"
    by (simp_all add: foldl_Reduce_worker)
  with ns show ?thesis by blast
qed

lemma Reduce_round_length:
  assumes r: "outcome (Reduce_round f w st sched) = Return ns" and pos: "0 < length st"
  shows "length ns = (length st + 1) div 2"
proof -
  from Reduce_round_Return[OF r pos] obtain "is"
    where m: "mset is = mset (filter even [0..<length st - 1])"
      and ns: "ns = map (\<lambda>i. f (st ! i) (st ! (i + 1))) is @
                (if length st mod 2 = 1 then [st ! (length st - 1)] else [])" by blast
  from m have "length is = length (filter even [0..<length st - 1])"
    by (rule mset_eq_length)
  then have "length is = length st div 2" using pos by (simp add: length_filter_even)
  with ns show ?thesis by (auto simp: ) arith+
qed

lemma next_round_Return:
  "outcome (next_round st r k) = Return tr \<longleftrightarrow>
   (\<exists>ns tr'. outcome r = Return ns \<and> outcome (k ns) = Return tr' \<and> tr = st # tr')"
  by (cases r; cases "outcome r")
     (auto simp: next_round_def split: call.splits outcome.splits)

lemma Reduce_loop_Nil:
  "outcome (Reduce_loop f w [] st) = Return tr \<longleftrightarrow> \<not> 1 < length st \<and> tr = [st]"
  by (auto simp: next_round_Return)

lemma Reduce_loop_Return:
  "outcome (Reduce_loop f w scheds st) = Return tr \<Longrightarrow> 0 < length st \<Longrightarrow>
   tr \<noteq> [] \<and> hd tr = st \<and> halving tr \<and> length (last tr) = 1"
proof (induction scheds arbitrary: st tr)
  case Nil
  from iffD1[OF Reduce_loop_Nil Nil.prems(1)] have "tr = [st]" and "\<not> 1 < length st"
    by blast+
  with Nil.prems(2) show ?case by (cases st) auto
next
  case (Cons sched rest)
  show ?case
  proof (cases "1 < length st")
    case False
    with Cons.prems(2) have "length st = 1" by arith
    with Cons.prems(1) show ?thesis by auto
  next
    case True
    with Cons.prems(1) obtain ns tr'
      where r: "outcome (Reduce_round f w st sched) = Return ns"
        and l: "outcome (Reduce_loop f w rest ns) = Return tr'" and tr: "tr = st # tr'"
      by (auto simp: next_round_Return)
    from Reduce_round_length[OF r Cons.prems(2)] True
    have len: "length ns = (length st + 1) div 2" and pos: "0 < length ns"
      and less: "length ns < length st" by arith+
    from Cons.IH[OF l pos] have "tr' \<noteq> []" "hd tr' = ns" "halving tr'" "length (last tr') = 1"
      by simp_all
    with tr len less True show ?thesis by (cases tr') simp_all
  qed
qed

lemma Reduce_round_fair:
  assumes w: "0 \<le> w" and M: "length st \<le> M"
  shows "\<exists>ns. outcome (Reduce_round f w st (fair M)) = Return ns"
proof -
  let ?js = "filter even [0..<length st - 1]"
  have "length ?js \<le> length [0..<length st - 1]" by (rule length_filter_le)
  with M have js: "length ?js \<le> M" by simp
  from calc_workers_le[OF w, of "length st"] M
  have "nat (calc_workers w (length st)) \<le> M" by simp
  from pool_fair[OF js this, of "Reduce_worker f st" "[]" "[]"]
  have "finished (run (Reduce_worker f st) (fair M)
      (start ?js (nat (calc_workers w (length st))) []))" by simp
  with calc_workers_nonneg[OF w, of "length st"] show ?thesis
    by (simp add: Reduce_round_def Let_def report_def)
qed

lemma Reduce_loop_fair:
  assumes w: "0 \<le> w"
  shows "length st \<le> M \<Longrightarrow> length st \<le> R + 1 \<Longrightarrow>
         \<exists>tr. outcome (Reduce_loop f w (replicate R (fair M)) st) = Return tr"
proof (induction R arbitrary: st)
  case 0
  then have "\<not> 1 < length st" by simp
  then have "outcome (Reduce_loop f w [] st) = Return [st]"
    by (intro iffD2[OF Reduce_loop_Nil] conjI refl)
  then show ?case by simp
next
  case (Suc R)
  show ?case
  proof (cases "1 < length st")
    case False
    then show ?thesis by simp
  next
    case True
    from Reduce_round_fair[OF w Suc.prems(1), of f] obtain ns
      where r: "outcome (Reduce_round f w st (fair M)) = Return ns" by blast
    from True have pos: "0 < length st" by arith
    from Reduce_round_length[OF r pos] True Suc.prems
    have "length ns \<le> M" and "length ns \<le> R + 1" by arith+
    from Suc.IH[OF this] obtain tr'
      where "outcome (Reduce_loop f w (replicate R (fair M)) ns) = Return tr'" by blast
    with r True have "outcome (Reduce_loop f w (replicate (Suc R) (fair M)) st) = Return (st # tr')"
      by (auto simp: next_round_Return)
    then show ?thesis by blast
  qed
qed

lemma Reduce_states_fair:
  assumes "0 \<le> workers s"
  shows "\<exists>tr. outcome (Reduce_states s zero f (fair_rounds (2 * length (data s)))) = Return tr"
  unfolding Reduce_states_def fair_rounds_def
  by (rule Reduce_loop_fair[OF assms]) simp_all

text \<open>A collection of one element: the loop runs one round on \<open>[zero, x]\<close>.\<close>

lemma Reduce_single:
  assumes "outcome (Reduce \<lparr>data = [x], workers = w\<rparr> zero f scheds) = Return v"
  shows "v = f zero x"
proof -
  from assms obtain tr
    where tr: "outcome (Reduce_loop f w scheds [zero, x]) = Return tr" and v: "v = last tr ! 0"
    by (auto simp: Reduce_def Reduce_states_def split: call.splits outcome.splits)
  from tr obtain sched rest where s: "scheds = sched # rest"
    using iffD1[OF Reduce_loop_Nil, of f w "[zero, x]" tr] by (cases scheds) auto
  with tr obtain ns tr'
    where r: "outcome (Reduce_round f w [zero, x] sched) = Return ns"
      and l: "outcome (Reduce_loop f w rest ns) = Return tr'" and t: "tr = [zero, x] # tr'"
    by (auto simp: next_round_Return)
  from Reduce_round_Return[OF r] obtain "is" where "mset is = mset [0::nat]"
    and "ns = map (\<lambda>i. f ([zero, x] ! i) ([zero, x] ! (i + 1))) is" by auto
  then have ns: "ns = [f zero x]" by simp
  with l have "tr' = [[f zero x]]" by (cases rest) (simp_all add: Reduce_loop_Nil)
  with t v show ?thesis by simp
qed

lemma next_round_Panic:
  "outcome (next_round st r k) = Panic \<longleftrightarrow>
   (outcome r = Panic \<or> (\<exists>ns. outcome r = Return ns \<and> outcome (k ns) = Panic))"
proof (cases "outcome r")
  case (Return ns)
  then show ?thesis
    by (cases "k ns"; cases "outcome (k ns)") (auto simp: next_round_def)
qed (auto simp: next_round_def)

lemma Reduce_round_no_Panic: "0 \<le> w \<Longrightarrow> outcome (Reduce_round f w st sched) \<noteq> Panic"
  using calc_workers_nonneg[of w "length st"]
  by (auto simp: Reduce_round_def Let_def report_def)

lemma Reduce_loop_no_Panic: "0 \<le> w \<Longrightarrow> outcome (Reduce_loop f w scheds st) \<noteq> Panic"
proof (induction scheds arbitrary: st)
  case Nil
  with Reduce_round_no_Panic[of w f st "[]"] show ?case by (simp add: next_round_Panic)
next
  case (Cons sched rest)
  from Cons.IH[OF Cons.prems] Reduce_round_no_Panic[OF Cons.prems, of f st sched] show ?case
    by (simp add: next_round_Panic)
qed

lemma Reduce_loop_Panic:
  "w < 0 \<Longrightarrow> 1 < length st \<Longrightarrow> outcome (Reduce_loop f w scheds st) = Panic"
  by (cases scheds) (auto simp: next_round_Panic Reduce_round_def Let_def calc_workers_def)

lemma calc_workers_range:
  "0 < n \<Longrightarrow> 0 \<le> w \<Longrightarrow> 1 \<le> calc_workers w n \<and> calc_workers w n \<le> int n"
  by (auto simp: calc_workers_def)

lemma pool_no_Panic:
  assumes "0 \<le> workers s"
  shows "outcome (All' s f sched) \<noteq> Panic" and "outcome (Any s f sched) \<noteq> Panic"
    and "outcome (Each s sched) \<noteq> Panic" and "outcome (Filter s f sched) \<noteq> Panic"
    and "outcome (Map s zero g sched) \<noteq> Panic" and "outcome (Reduce s z h scheds) \<noteq> Panic"
proof -
  note nn = calc_workers_nonneg[OF assms, of "length (data s)"]
  show "outcome (All' s f sched) \<noteq> Panic"
    using nn by (simp add: All'_def Let_def report_def)
  show "outcome (Any s f sched) \<noteq> Panic"
    using nn by (simp add: Any_def Let_def report_def)
  show "outcome (Each s sched) \<noteq> Panic"
    using nn by (simp add: Each_def Let_def report_def)
  show "outcome (Filter s f sched) \<noteq> Panic"
    using nn by (simp add: Filter_def Let_def report_def)
  show "outcome (Map s zero g sched) \<noteq> Panic"
    using nn by (simp add: Map_def Let_def report_def)
  show "outcome (Reduce s z h scheds) \<noteq> Panic"
    using Reduce_loop_no_Panic[OF assms, of h scheds "replicate (length (data s)) z @ data s"]
    by (auto simp: Reduce_def Reduce_states_def split: call.splits outcome.splits)
qed

lemma pool_Panic:
  assumes w: "workers s < 0" and d: "data s \<noteq> []"
  shows "outcome (All' s f sched) = Panic" and "outcome (Any s f sched) = Panic"
    and "outcome (Each s sched) = Panic" and "outcome (Filter s f sched) = Panic"
    and "outcome (Map s zero g sched) = Panic" and "outcome (Reduce s z h scheds) = Panic"
proof -
  from w have neg: "calc_workers (workers s) (length (data s)) < 0"
    by (simp add: calc_workers_def)
  show "outcome (All' s f sched) = Panic" using neg d by (simp add: All'_def Let_def)
  show "outcome (Any s f sched) = Panic" using neg d by (simp add: Any_def Let_def)
  show "outcome (Each s sched) = Panic" using neg by (simp add: Each_def Let_def)
  show "outcome (Filter s f sched) = Panic" using neg by (simp add: Filter_def Let_def)
  show "outcome (Map s zero g sched) = Panic" using neg by (simp add: Map_def Let_def)
  from d have "1 < length (replicate (length (data s)) z @ data s)" by (cases "data s") simp_all
  from Reduce_loop_Panic[OF w this, of h scheds] d
  show "outcome (Reduce s z h scheds) = Panic"
    by (auto simp: Reduce_def Reduce_states_def split: call.splits outcome.splits)
qed

lemma Each_elements:
  assumes "outcome (Each s sched) = Return u"
  shows "mset (map (\<lambda>i. data s ! i) (applied (Each s sched))) = mset (data s)"
  using Each_Return(1)[OF assms] by (rule mset_map_nth)

section \<open>The claims\<close>

text \<open>
  C1: whenever \<open>All\<close> returns, under any schedule and any worker count, it returns whether
  the predicate holds for every element, and \<open>Any\<close> whether it holds for some element; with
  a non-negative worker count they do return, after any steps followed by the fair
  schedule.
\<close>

theorem All_Any_correct:
  "(outcome (All' s f sched) = Return b \<longrightarrow> b = (\<forall>x \<in> set (data s). f x)) \<and>
   (outcome (Any s f sched') = Return c \<longrightarrow> c = (\<exists>x \<in> set (data s). f x)) \<and>
   (0 \<le> workers s \<longrightarrow>
      outcome (All' s f (sched @ fair (length (data s)))) = Return (\<forall>x \<in> set (data s). f x) \<and>
      outcome (Any s f (sched' @ fair (length (data s)))) = Return (\<exists>x \<in> set (data s). f x))"
  using All_Return[of s f sched b] Any_Return[of s f sched' c]
    All_fair[of s f sched] Any_fair[of s f sched'] by blast

theorem All_Any_correct_witness:
  "outcome (All' \<lparr>data = [1, 2, 3, 4, 5 :: int], workers = 2\<rparr> (\<lambda>x. 3 < x) [2, 2, 2, 2, 2, 2, 0, 0]) = Return False \<and>
   \<not> (\<forall>x \<in> set (data \<lparr>data = [1, 2, 3, 4, 5 :: int], workers = 2\<rparr>). 3 < x) \<and>
   outcome (Any \<lparr>data = [1, 2, 3, 4, 5 :: int], workers = 2\<rparr> (\<lambda>x. 3 < x) [2, 2, 2, 2, 2, 2, 0, 0, 0, 0, 0, 0, 0, 0]) = Return True \<and>
   (\<exists>x \<in> set (data \<lparr>data = [1, 2, 3, 4, 5 :: int], workers = 2\<rparr>). 3 < x) \<and>
   0 \<le> workers \<lparr>data = [1, 2, 3, 4, 5 :: int], workers = 2\<rparr> \<and>
   outcome (All' \<lparr>data = [1, 2, 3, 4, 5 :: int], workers = 2\<rparr> (\<lambda>x. 3 < x) ([2, 2, 2, 2, 2, 2, 0, 0] @ fair (length (data \<lparr>data = [1, 2, 3, 4, 5 :: int], workers = 2\<rparr>)))) =
     Return False \<and>
   outcome (Any \<lparr>data = [1, 2, 3, 4, 5 :: int], workers = 2\<rparr> (\<lambda>x. 3 < x)
     ([2, 2, 2, 2, 2, 2, 0, 0, 0, 0, 0, 0, 0, 0] @ fair (length (data \<lparr>data = [1, 2, 3, 4, 5 :: int], workers = 2\<rparr>)))) = Return True"
proof -
  have a: "outcome (All' \<lparr>data = [1, 2, 3, 4, 5 :: int], workers = 2\<rparr> (\<lambda>x. 3 < x) [2, 2, 2, 2, 2, 2, 0, 0]) = Return False"
    by code_simp
  have b: "outcome (Any \<lparr>data = [1, 2, 3, 4, 5 :: int], workers = 2\<rparr> (\<lambda>x. 3 < x) [2, 2, 2, 2, 2, 2, 0, 0, 0, 0, 0, 0, 0, 0]) =
      Return True"
    by code_simp
  have w: "0 \<le> workers \<lparr>data = [1, 2, 3, 4, 5 :: int], workers = 2\<rparr>" by simp
  from All_Any_correct[of "\<lparr>data = [1, 2, 3, 4, 5 :: int], workers = 2\<rparr>" "\<lambda>x. 3 < x"
      "[2, 2, 2, 2, 2, 2, 0, 0]" False "[2, 2, 2, 2, 2, 2, 0, 0, 0, 0, 0, 0, 0, 0]" True] a b w
  show ?thesis by simp
qed

text \<open>
  C2: whenever \<open>Map\<close> returns, under any schedule and any worker count, its result has the
  length of the collection and holds \<open>f(xs[i])\<close> at every index \<open>i\<close>; with a non-negative
  worker count it does return, after any steps followed by the fair schedule.
\<close>

theorem Map_positional:
  "(outcome (Map s zero f sched) = Return ys \<longrightarrow>
      length ys = length (data s) \<and> (\<forall>i < length (data s). ys ! i = f (data s ! i))) \<and>
   (0 \<le> workers s \<longrightarrow>
      outcome (Map s zero f (sched @ fair (length (data s)))) = Return (map f (data s)))"
  using Map_Return[of s zero f sched ys] Map_fair[of s zero f sched] by auto

theorem Map_positional_witness:
  "outcome (Map \<lparr>data = [1, 2, 3 :: int], workers = 2\<rparr> 0 (\<lambda>x. x * 2) [2, 2, 2, 2, 0, 1, 1, 0, 0, 0, 0, 1]) = Return [2, 4, 6] \<and>
   length [2, 4, 6 :: int] = length (data \<lparr>data = [1, 2, 3 :: int], workers = 2\<rparr>) \<and>
   1 < length (data \<lparr>data = [1, 2, 3 :: int], workers = 2\<rparr>) \<and>
   [2, 4, 6] ! 1 = (\<lambda>x. x * 2) (data \<lparr>data = [1, 2, 3 :: int], workers = 2\<rparr> ! 1) \<and>
   0 \<le> workers \<lparr>data = [1, 2, 3 :: int], workers = 2\<rparr> \<and>
   outcome (Map \<lparr>data = [1, 2, 3 :: int], workers = 2\<rparr> 0 (\<lambda>x. x * 2)
     ([2, 2, 2, 2, 0, 1, 1, 0, 0, 0, 0, 1] @ fair (length (data \<lparr>data = [1, 2, 3 :: int], workers = 2\<rparr>)))) =
     Return (map (\<lambda>x. x * 2) (data \<lparr>data = [1, 2, 3 :: int], workers = 2\<rparr>))"
proof -
  have r: "outcome (Map \<lparr>data = [1, 2, 3 :: int], workers = 2\<rparr> 0 (\<lambda>x. x * 2) [2, 2, 2, 2, 0, 1, 1, 0, 0, 0, 0, 1]) =
      Return [2, 4, 6]"
    by code_simp
  have w: "0 \<le> workers \<lparr>data = [1, 2, 3 :: int], workers = 2\<rparr>" and i: "1 < length (data \<lparr>data = [1, 2, 3 :: int], workers = 2\<rparr>)" by simp_all
  from Map_positional[of "\<lparr>data = [1, 2, 3 :: int], workers = 2\<rparr>" 0 "\<lambda>x. x * 2"
      "[2, 2, 2, 2, 0, 1, 1, 0, 0, 0, 0, 1]" "[2, 4, 6]"] r w i
  show ?thesis by blast
qed

text \<open>
  C3: whenever \<open>Filter\<close> returns, its result is the elements of the collection that
  satisfy the predicate, in the order of the collection; with a non-negative worker count
  it does return, after any steps followed by the fair schedule.
\<close>

theorem Filter_exact:
  "(outcome (Filter s p sched) = Return ys \<longrightarrow> ys = filter p (data s)) \<and>
   (0 \<le> workers s \<longrightarrow>
      outcome (Filter s p (sched @ fair (length (data s)))) = Return (filter p (data s)))"
  using Filter_Return[of s p sched ys] Filter_fair[of s p sched] by blast

theorem Filter_exact_witness:
  "outcome (Filter \<lparr>data = [1, 2, 3, 4, 5 :: int], workers = 2\<rparr> (\<lambda>x. 3 < x)
      [2, 2, 2, 2, 2, 2, 0, 1, 1, 0, 0, 0, 1, 1, 0, 0, 0, 1]) = Return [4, 5] \<and>
   [4, 5] = filter (\<lambda>x. 3 < x) (data \<lparr>data = [1, 2, 3, 4, 5 :: int], workers = 2\<rparr>) \<and>
   0 \<le> workers \<lparr>data = [1, 2, 3, 4, 5 :: int], workers = 2\<rparr> \<and>
   outcome (Filter \<lparr>data = [1, 2, 3, 4, 5 :: int], workers = 2\<rparr> (\<lambda>x. 3 < x)
      ([2, 2, 2, 2, 2, 2, 0, 1, 1, 0, 0, 0, 1, 1, 0, 0, 0, 1] @ fair (length (data \<lparr>data = [1, 2, 3, 4, 5 :: int], workers = 2\<rparr>)))) =
      Return (filter (\<lambda>x. 3 < x) (data \<lparr>data = [1, 2, 3, 4, 5 :: int], workers = 2\<rparr>))"
proof -
  have r: "outcome (Filter \<lparr>data = [1, 2, 3, 4, 5 :: int], workers = 2\<rparr> (\<lambda>x. 3 < x)
      [2, 2, 2, 2, 2, 2, 0, 1, 1, 0, 0, 0, 1, 1, 0, 0, 0, 1]) = Return [4, 5]"
    by code_simp
  have w: "0 \<le> workers \<lparr>data = [1, 2, 3, 4, 5 :: int], workers = 2\<rparr>" by simp
  from Filter_exact[of "\<lparr>data = [1, 2, 3, 4, 5 :: int], workers = 2\<rparr>" "\<lambda>x. 3 < x"
      "[2, 2, 2, 2, 2, 2, 0, 1, 1, 0, 0, 0, 1, 1, 0, 0, 0, 1]" "[4, 5]"] r w
  show ?thesis by blast
qed

text \<open>
  C4, at the collection \<open>[5]\<close> with multiplication, the zero value 0 and one worker: the
  loop starts on \<open>[0, 5]\<close>, one index is sent, the function is applied once, and \<open>Reduce\<close>
  returns \<open>0 * 5 = 0\<close>.
\<close>

theorem Reduce_single_element_run:
  "Reduce \<lparr>data = [5 :: int], workers = 1\<rparr> 0 (*) [[1, 1, 0, 0, 0]] = Call (Return 0) [0] [0] \<and>
   Reduce_states \<lparr>data = [5 :: int], workers = 1\<rparr> 0 (*) [[1, 1, 0, 0, 0]] =
     Call (Return [[0, 5], [0]]) [0] [0]"
  by code_simp

text \<open>
  C5, at the collection \<open>[1, 2, 3, 4, 5]\<close> with addition, the zero value 0 and one worker:
  \<open>Reduce\<close> returns 15, and the working sequences are \<open>[0, 0, 0, 0, 0, 1, 2, 3, 4, 5]\<close>,
  \<open>[0, 0, 1, 5, 9]\<close>, \<open>[0, 6, 9]\<close>, \<open>[6, 9]\<close> and \<open>[15]\<close>.
\<close>

theorem Reduce_scenario_run:
  "outcome (Reduce \<lparr>data = [1, 2, 3, 4, 5 :: int], workers = 1\<rparr> 0 (+) [[1, 1, 1, 1, 1, 1, 0, 0, 0, 0, 0, 0, 0, 0, 0, 0, 0], [1, 1, 1, 0, 0, 0, 0, 0], [1, 1, 0, 0, 0], [1, 1, 0, 0, 0]]) = Return 15 \<and>
   outcome (Reduce_states \<lparr>data = [1, 2, 3, 4, 5 :: int], workers = 1\<rparr> 0 (+) [[1, 1, 1, 1, 1, 1, 0, 0, 0, 0, 0, 0, 0, 0, 0, 0, 0], [1, 1, 1, 0, 0, 0, 0, 0], [1, 1, 0, 0, 0], [1, 1, 0, 0, 0]]) =
     Return [[0, 0, 0, 0, 0, 1, 2, 3, 4, 5], [0, 0, 1, 5, 9], [0, 6, 9], [6, 9], [15]]"
  by code_simp

text \<open>
  C6: on an empty collection \<open>All\<close> returns true, \<open>Any\<close> returns false and \<open>Reduce\<close>
  returns the zero value, under any schedule and any worker count, with no index sent to
  a worker and no application of the caller's function.
\<close>

theorem empty_defaults:
  "data s = [] \<Longrightarrow>
   All' s f sched = Call (Return True) [] [] \<and>
   Any s f sched = Call (Return False) [] [] \<and>
   Reduce s zero g scheds = Call (Return zero) [] []"
  by (simp add: All'_def Any_def Reduce_def)

theorem empty_defaults_witness:
  "data \<lparr>data = [] :: int list, workers = 3\<rparr> = [] \<and>
   All' \<lparr>data = [] :: int list, workers = 3\<rparr> (\<lambda>x. 3 < x) [3, 0, 1] = Call (Return True) [] [] \<and>
   Any \<lparr>data = [] :: int list, workers = 3\<rparr> (\<lambda>x. 3 < x) [3, 0, 1] = Call (Return False) [] [] \<and>
   Reduce \<lparr>data = [] :: int list, workers = 3\<rparr> 0 (+) [[3, 0, 1]] = Call (Return 0) [] []"
  using empty_defaults[of "\<lparr>data = [] :: int list, workers = 3\<rparr>" "\<lambda>x. 3 < x" "[3, 0, 1]" 0 "(+)" "[[3, 0, 1]]"]
  by simp

text \<open>
  C7: a round of \<open>Reduce\<close> that completes on a working sequence of length \<open>m > 1\<close> leaves
  one of length \<open>(m + 1) div 2\<close>, which is smaller; whenever the loop ends, each of its
  working sequences but the last had more than one element and was halved in this way, and
  the last has exactly one element; with a non-negative worker count the loop does end,
  under the fair schedules.
\<close>

theorem Reduce_rounds_halve:
  "(outcome (Reduce_round f w st sched) = Return ns \<and> 1 < length st \<longrightarrow>
      length ns = (length st + 1) div 2 \<and> length ns < length st) \<and>
   (outcome (Reduce_states s zero f scheds) = Return tr \<and> data s \<noteq> [] \<longrightarrow>
      hd tr = replicate (length (data s)) zero @ data s \<and> halving tr \<and> length (last tr) = 1) \<and>
   (0 \<le> workers s \<longrightarrow>
      (\<exists>tr. outcome (Reduce_states s zero f (fair_rounds (2 * length (data s)))) = Return tr))"
proof (intro conjI impI)
  assume a: "outcome (Reduce_round f w st sched) = Return ns \<and> 1 < length st"
  then have "0 < length st" by arith
  from Reduce_round_length[OF _ this] a show "length ns = (length st + 1) div 2" by blast
  with a show "length ns < length st" by arith
next
  assume a: "outcome (Reduce_states s zero f scheds) = Return tr \<and> data s \<noteq> []"
  then have "0 < length (replicate (length (data s)) zero @ data s)" by simp
  moreover from a
  have "outcome (Reduce_loop f (workers s) scheds (replicate (length (data s)) zero @ data s)) =
        Return tr" by (simp add: Reduce_states_def)
  ultimately have "tr \<noteq> [] \<and> hd tr = replicate (length (data s)) zero @ data s \<and>
      halving tr \<and> length (last tr) = 1" by (rule Reduce_loop_Return[rotated])
  then show "hd tr = replicate (length (data s)) zero @ data s" and "halving tr"
    and "length (last tr) = 1"
    by simp_all
next
  assume "0 \<le> workers s"
  then show "\<exists>tr. outcome (Reduce_states s zero f (fair_rounds (2 * length (data s)))) = Return tr"
    by (rule Reduce_states_fair)
qed

theorem Reduce_rounds_halve_witness:
  "outcome (Reduce_round (+) 1 [0, 0, 0, 1, 2, 3 :: int] [1, 1, 1, 1, 0, 0, 0, 0, 0, 0, 0]) =
     Return [0, 1, 5] \<and>
   1 < length [0, 0, 0, 1, 2, 3 :: int] \<and>
   length [0, 1, 5 :: int] = (length [0, 0, 0, 1, 2, 3 :: int] + 1) div 2 \<and>
   length [0, 1, 5 :: int] < length [0, 0, 0, 1, 2, 3 :: int] \<and>
   outcome (Reduce_states \<lparr>data = [1, 2, 3 :: int], workers = 1\<rparr> 0 (+) [[1, 1, 1, 1, 0, 0, 0, 0, 0, 0, 0], [1, 1, 0, 0, 0], [1, 1, 0, 0, 0]]) =
     Return [[0, 0, 0, 1, 2, 3], [0, 1, 5], [1, 5], [6]] \<and>
   data \<lparr>data = [1, 2, 3 :: int], workers = 1\<rparr> \<noteq> [] \<and>
   hd [[0, 0, 0, 1, 2, 3], [0, 1, 5], [1, 5], [6 :: int]] =
     replicate (length (data \<lparr>data = [1, 2, 3 :: int], workers = 1\<rparr>)) 0 @ data \<lparr>data = [1, 2, 3 :: int], workers = 1\<rparr> \<and>
   halving [[0, 0, 0, 1, 2, 3], [0, 1, 5], [1, 5], [6 :: int]] \<and>
   length (last [[0, 0, 0, 1, 2, 3], [0, 1, 5], [1, 5], [6 :: int]]) = 1 \<and>
   0 \<le> workers \<lparr>data = [1, 2, 3 :: int], workers = 1\<rparr> \<and>
   (\<exists>tr. outcome (Reduce_states \<lparr>data = [1, 2, 3 :: int], workers = 1\<rparr> 0 (+) (fair_rounds (2 * length (data \<lparr>data = [1, 2, 3 :: int], workers = 1\<rparr>)))) = Return tr)"
proof -
  have r: "outcome (Reduce_round (+) 1 [0, 0, 0, 1, 2, 3 :: int]
      [1, 1, 1, 1, 0, 0, 0, 0, 0, 0, 0]) = Return [0, 1, 5]"
    by code_simp
  have l: "outcome (Reduce_states \<lparr>data = [1, 2, 3 :: int], workers = 1\<rparr> 0 (+) [[1, 1, 1, 1, 0, 0, 0, 0, 0, 0, 0], [1, 1, 0, 0, 0], [1, 1, 0, 0, 0]]) =
     Return [[0, 0, 0, 1, 2, 3], [0, 1, 5], [1, 5], [6]]"
    by code_simp
  have h: "1 < length [0, 0, 0, 1, 2, 3 :: int]" "data \<lparr>data = [1, 2, 3 :: int], workers = 1\<rparr> \<noteq> []" "0 \<le> workers \<lparr>data = [1, 2, 3 :: int], workers = 1\<rparr>"
    by simp_all
  from Reduce_rounds_halve[of "(+)" 1 "[0, 0, 0, 1, 2, 3 :: int]"
      "[1, 1, 1, 1, 0, 0, 0, 0, 0, 0, 0]" "[0, 1, 5]" "\<lparr>data = [1, 2, 3 :: int], workers = 1\<rparr>" 0 "[[1, 1, 1, 1, 0, 0, 0, 0, 0, 0, 0], [1, 1, 0, 0, 0], [1, 1, 0, 0, 0]]"
      "[[0, 0, 0, 1, 2, 3], [0, 1, 5], [1, 5], [6]]"] r l h
  show ?thesis by blast
qed

text \<open>
  C8 as the code has it: on a non-empty collection of length \<open>n\<close> a worker count \<open>w \<ge> 0\<close>
  gives a pool size in \<open>[1, n]\<close>, which is \<open>n\<close> for \<open>w = 0\<close> and for \<open>w > n\<close> and \<open>w\<close> itself
  for \<open>w\<close> in \<open>[1, n]\<close>, and no operation panics; a negative worker count is not clamped but
  kept as it is, and every operation panics. \<open>Reduce\<close> computes the pool size anew in
  every round, from the length \<open>m\<close> of the working sequence of that round: it is in
  \<open>[1, m]\<close>.
\<close>

theorem workers_clamped:
  "(data s \<noteq> [] \<and> 0 \<le> workers s \<longrightarrow>
      1 \<le> calc_workers (workers s) (length (data s)) \<and>
      calc_workers (workers s) (length (data s)) \<le> int (length (data s)) \<and>
      (workers s = 0 \<or> int (length (data s)) < workers s \<longrightarrow>
         calc_workers (workers s) (length (data s)) = int (length (data s))) \<and>
      (1 \<le> workers s \<and> workers s \<le> int (length (data s)) \<longrightarrow>
         calc_workers (workers s) (length (data s)) = workers s) \<and>
      outcome (All' s f sched) \<noteq> Panic \<and> outcome (Any s f sched) \<noteq> Panic \<and>
      outcome (Each s sched) \<noteq> Panic \<and> outcome (Filter s f sched) \<noteq> Panic \<and>
      outcome (Map s zero g sched) \<noteq> Panic \<and> outcome (Reduce s z h scheds) \<noteq> Panic) \<and>
   (data s \<noteq> [] \<and> workers s < 0 \<longrightarrow>
      calc_workers (workers s) (length (data s)) = workers s \<and>
      outcome (All' s f sched) = Panic \<and> outcome (Any s f sched) = Panic \<and>
      outcome (Each s sched) = Panic \<and> outcome (Filter s f sched) = Panic \<and>
      outcome (Map s zero g sched) = Panic \<and> outcome (Reduce s z h scheds) = Panic) \<and>
   (1 < length st \<and> 0 \<le> w \<longrightarrow>
      1 \<le> calc_workers w (length st) \<and> calc_workers w (length st) \<le> int (length st) \<and>
      outcome (Reduce_round h w st sched) \<noteq> Panic)"
proof (intro conjI impI)
  assume a: "data s \<noteq> [] \<and> 0 \<le> workers s"
  then have n: "0 < length (data s)" and w: "0 \<le> workers s" by simp_all
  from calc_workers_range[OF n w]
  show "1 \<le> calc_workers (workers s) (length (data s))"
    and "calc_workers (workers s) (length (data s)) \<le> int (length (data s))" by simp_all
  show "calc_workers (workers s) (length (data s)) = int (length (data s))"
    if "workers s = 0 \<or> int (length (data s)) < workers s"
    using that by (auto simp: calc_workers_def)
  show "calc_workers (workers s) (length (data s)) = workers s"
    if "1 \<le> workers s \<and> workers s \<le> int (length (data s))"
    using that by (auto simp: calc_workers_def)
  show "outcome (All' s f sched) \<noteq> Panic" by (rule pool_no_Panic(1)[OF w])
  show "outcome (Any s f sched) \<noteq> Panic" by (rule pool_no_Panic(2)[OF w])
  show "outcome (Each s sched) \<noteq> Panic" by (rule pool_no_Panic(3)[OF w])
  show "outcome (Filter s f sched) \<noteq> Panic" by (rule pool_no_Panic(4)[OF w])
  show "outcome (Map s zero g sched) \<noteq> Panic" by (rule pool_no_Panic(5)[OF w])
  show "outcome (Reduce s z h scheds) \<noteq> Panic" by (rule pool_no_Panic(6)[OF w])
next
  assume a: "data s \<noteq> [] \<and> workers s < 0"
  then have d: "data s \<noteq> []" and w: "workers s < 0" by simp_all
  from w show "calc_workers (workers s) (length (data s)) = workers s"
    by (simp add: calc_workers_def)
  show "outcome (All' s f sched) = Panic" by (rule pool_Panic(1)[OF w d])
  show "outcome (Any s f sched) = Panic" by (rule pool_Panic(2)[OF w d])
  show "outcome (Each s sched) = Panic" by (rule pool_Panic(3)[OF w d])
  show "outcome (Filter s f sched) = Panic" by (rule pool_Panic(4)[OF w d])
  show "outcome (Map s zero g sched) = Panic" by (rule pool_Panic(5)[OF w d])
  show "outcome (Reduce s z h scheds) = Panic" by (rule pool_Panic(6)[OF w d])
next
  assume a: "1 < length st \<and> 0 \<le> w"
  then have n: "0 < length st" and w: "0 \<le> w" by arith+
  from calc_workers_range[OF n w]
  show "1 \<le> calc_workers w (length st)" and "calc_workers w (length st) \<le> int (length st)"
    by simp_all
  show "outcome (Reduce_round h w st sched) \<noteq> Panic" by (rule Reduce_round_no_Panic[OF w])
qed

theorem workers_clamped_witness:
  "data \<lparr>data = [1, 2, 3 :: int], workers = 0\<rparr> \<noteq> [] \<and> 0 \<le> workers \<lparr>data = [1, 2, 3 :: int], workers = 0\<rparr> \<and> workers \<lparr>data = [1, 2, 3 :: int], workers = 0\<rparr> = 0 \<and>
   1 \<le> calc_workers (workers \<lparr>data = [1, 2, 3 :: int], workers = 0\<rparr>) (length (data \<lparr>data = [1, 2, 3 :: int], workers = 0\<rparr>)) \<and>
   calc_workers (workers \<lparr>data = [1, 2, 3 :: int], workers = 0\<rparr>) (length (data \<lparr>data = [1, 2, 3 :: int], workers = 0\<rparr>)) \<le> int (length (data \<lparr>data = [1, 2, 3 :: int], workers = 0\<rparr>)) \<and>
   calc_workers (workers \<lparr>data = [1, 2, 3 :: int], workers = 0\<rparr>) (length (data \<lparr>data = [1, 2, 3 :: int], workers = 0\<rparr>)) = int (length (data \<lparr>data = [1, 2, 3 :: int], workers = 0\<rparr>)) \<and>
   outcome (All' \<lparr>data = [1, 2, 3 :: int], workers = 0\<rparr> (\<lambda>x. 3 < x) [3, 3, 0]) \<noteq> Panic \<and>
   outcome (Any \<lparr>data = [1, 2, 3 :: int], workers = 0\<rparr> (\<lambda>x. 3 < x) [3, 3, 0]) \<noteq> Panic \<and>
   outcome (Each \<lparr>data = [1, 2, 3 :: int], workers = 0\<rparr> [3, 3, 0]) \<noteq> Panic \<and>
   outcome (Filter \<lparr>data = [1, 2, 3 :: int], workers = 0\<rparr> (\<lambda>x. 3 < x) [3, 3, 0]) \<noteq> Panic \<and>
   outcome (Map \<lparr>data = [1, 2, 3 :: int], workers = 0\<rparr> 0 (\<lambda>x. x * 2) [3, 3, 0]) \<noteq> Panic \<and>
   outcome (Reduce \<lparr>data = [1, 2, 3 :: int], workers = 0\<rparr> 0 (+) [[3, 3, 0]]) \<noteq> Panic \<and>
   data \<lparr>data = [1, 2, 3 :: int], workers = 7\<rparr> \<noteq> [] \<and> 0 \<le> workers \<lparr>data = [1, 2, 3 :: int], workers = 7\<rparr> \<and> int (length (data \<lparr>data = [1, 2, 3 :: int], workers = 7\<rparr>)) < workers \<lparr>data = [1, 2, 3 :: int], workers = 7\<rparr> \<and>
   calc_workers (workers \<lparr>data = [1, 2, 3 :: int], workers = 7\<rparr>) (length (data \<lparr>data = [1, 2, 3 :: int], workers = 7\<rparr>)) = int (length (data \<lparr>data = [1, 2, 3 :: int], workers = 7\<rparr>)) \<and>
   data \<lparr>data = [1, 2, 3 :: int], workers = 2\<rparr> \<noteq> [] \<and> 1 \<le> workers \<lparr>data = [1, 2, 3 :: int], workers = 2\<rparr> \<and> workers \<lparr>data = [1, 2, 3 :: int], workers = 2\<rparr> \<le> int (length (data \<lparr>data = [1, 2, 3 :: int], workers = 2\<rparr>)) \<and>
   calc_workers (workers \<lparr>data = [1, 2, 3 :: int], workers = 2\<rparr>) (length (data \<lparr>data = [1, 2, 3 :: int], workers = 2\<rparr>)) = workers \<lparr>data = [1, 2, 3 :: int], workers = 2\<rparr> \<and>
   data \<lparr>data = [1, 2, 3 :: int], workers = - 1\<rparr> \<noteq> [] \<and> workers \<lparr>data = [1, 2, 3 :: int], workers = - 1\<rparr> < 0 \<and>
   calc_workers (workers \<lparr>data = [1, 2, 3 :: int], workers = - 1\<rparr>) (length (data \<lparr>data = [1, 2, 3 :: int], workers = - 1\<rparr>)) = workers \<lparr>data = [1, 2, 3 :: int], workers = - 1\<rparr> \<and>
   outcome (All' \<lparr>data = [1, 2, 3 :: int], workers = - 1\<rparr> (\<lambda>x. 3 < x) [3, 3, 0]) = Panic \<and>
   outcome (Any \<lparr>data = [1, 2, 3 :: int], workers = - 1\<rparr> (\<lambda>x. 3 < x) [3, 3, 0]) = Panic \<and>
   outcome (Each \<lparr>data = [1, 2, 3 :: int], workers = - 1\<rparr> [3, 3, 0]) = Panic \<and>
   outcome (Filter \<lparr>data = [1, 2, 3 :: int], workers = - 1\<rparr> (\<lambda>x. 3 < x) [3, 3, 0]) = Panic \<and>
   outcome (Map \<lparr>data = [1, 2, 3 :: int], workers = - 1\<rparr> 0 (\<lambda>x. x * 2) [3, 3, 0]) = Panic \<and>
   outcome (Reduce \<lparr>data = [1, 2, 3 :: int], workers = - 1\<rparr> 0 (+) [[3, 3, 0]]) = Panic \<and>
   1 < length [0, 1, 5 :: int] \<and> (0 :: int) \<le> 7 \<and>
   1 \<le> calc_workers 7 (length [0, 1, 5 :: int]) \<and>
   calc_workers 7 (length [0, 1, 5 :: int]) \<le> int (length [0, 1, 5 :: int]) \<and>
   outcome (Reduce_round (+) 7 [0, 1, 5 :: int] [3, 3, 0]) \<noteq> Panic"
proof -
  note t = workers_clamped[where f = "\<lambda>x. 3 < x" and sched = "[3, 3, 0]" and zero = 0
      and g = "\<lambda>x. x * 2" and z = 0 and h = "(+)" and scheds = "[[3, 3, 0]]"
      and st = "[0, 1, 5 :: int]" and w = 7]
  have h: "data \<lparr>data = [1, 2, 3 :: int], workers = 0\<rparr> \<noteq> []" "0 \<le> workers \<lparr>data = [1, 2, 3 :: int], workers = 0\<rparr>" "workers \<lparr>data = [1, 2, 3 :: int], workers = 0\<rparr> = 0"
    "data \<lparr>data = [1, 2, 3 :: int], workers = 7\<rparr> \<noteq> []" "0 \<le> workers \<lparr>data = [1, 2, 3 :: int], workers = 7\<rparr>" "int (length (data \<lparr>data = [1, 2, 3 :: int], workers = 7\<rparr>)) < workers \<lparr>data = [1, 2, 3 :: int], workers = 7\<rparr>"
    "data \<lparr>data = [1, 2, 3 :: int], workers = 2\<rparr> \<noteq> []" "1 \<le> workers \<lparr>data = [1, 2, 3 :: int], workers = 2\<rparr>" "workers \<lparr>data = [1, 2, 3 :: int], workers = 2\<rparr> \<le> int (length (data \<lparr>data = [1, 2, 3 :: int], workers = 2\<rparr>))"
    "data \<lparr>data = [1, 2, 3 :: int], workers = - 1\<rparr> \<noteq> []" "workers \<lparr>data = [1, 2, 3 :: int], workers = - 1\<rparr> < 0"
    "1 < length [0, 1, 5 :: int]" "(0 :: int) \<le> 7"
    by simp_all
  from t[of "\<lparr>data = [1, 2, 3 :: int], workers = 0\<rparr>"] t[of "\<lparr>data = [1, 2, 3 :: int], workers = 7\<rparr>"] t[of "\<lparr>data = [1, 2, 3 :: int], workers = 2\<rparr>"] t[of "\<lparr>data = [1, 2, 3 :: int], workers = - 1\<rparr>"] h
  show ?thesis by simp
qed

text \<open>
  C8 as stated fails at the worker count \<open>-1\<close> on a collection of three elements: the pool
  size computed is \<open>-1\<close>, below 1, and the operations panic.
\<close>

theorem workers_negative_counterexample:
  "calc_workers (- 1) 3 = - 1 \<and>
   \<not> (1 \<le> calc_workers (- 1) 3 \<and> calc_workers (- 1) 3 \<le> 3) \<and>
   outcome (All' \<lparr>data = [1, 2, 3 :: int], workers = - 1\<rparr> ((<) 3) [3, 3, 0]) = Panic \<and>
   outcome (Each \<lparr>data = [1, 2, 3 :: int], workers = - 1\<rparr> [3, 3, 0]) = Panic \<and>
   outcome (Map \<lparr>data = [1, 2, 3 :: int], workers = - 1\<rparr> 0 ((*) 2) [3, 3, 0]) = Panic"
  by (simp add: calc_workers_def All'_def Each_def Map_def)

text \<open>
  C9: for a worker count \<open>w\<close> in \<open>[1, n]\<close>, whenever the calls with \<open>w\<close>, with one and
  with \<open>n\<close> workers return, under any three schedules, \<open>Map\<close> returns the same sequence in
  all three, \<open>Filter\<close> returns the same sequence in all three, and \<open>Each\<close> has applied the
  function to the same elements the same number of times (once to each element of the
  collection; the order of the applications is the schedule's); and all these calls do
  return, after any steps followed by the fair schedule.
\<close>

theorem worker_count_independent:
  "1 \<le> w \<and> w \<le> int (length xs) \<longrightarrow>
   (outcome (Map \<lparr>data = xs, workers = w\<rparr> zero f m0) = Return a \<and> outcome (Map \<lparr>data = xs, workers = 1\<rparr> zero f m1) = Return b \<and>
    outcome (Map \<lparr>data = xs, workers = int (length xs)\<rparr> zero f m2) = Return c \<longrightarrow> a = b \<and> a = c) \<and>
   (outcome (Filter \<lparr>data = xs, workers = w\<rparr> p f0) = Return ys \<and> outcome (Filter \<lparr>data = xs, workers = 1\<rparr> p f1) = Return ys' \<and>
    outcome (Filter \<lparr>data = xs, workers = int (length xs)\<rparr> p f2) = Return ys'' \<longrightarrow> ys = ys' \<and> ys = ys'') \<and>
   (outcome (Each \<lparr>data = xs, workers = w\<rparr> e0) = Return u \<and> outcome (Each \<lparr>data = xs, workers = 1\<rparr> e1) = Return u' \<and>
    outcome (Each \<lparr>data = xs, workers = int (length xs)\<rparr> e2) = Return u'' \<longrightarrow>
      mset (map (\<lambda>i. xs ! i) (applied (Each \<lparr>data = xs, workers = w\<rparr> e0))) = mset xs \<and>
      mset (map (\<lambda>i. xs ! i) (applied (Each \<lparr>data = xs, workers = 1\<rparr> e1))) = mset xs \<and>
      mset (map (\<lambda>i. xs ! i) (applied (Each \<lparr>data = xs, workers = int (length xs)\<rparr> e2))) = mset xs) \<and>
   outcome (Map \<lparr>data = xs, workers = w\<rparr> zero f (m0 @ fair (length xs))) = Return (map f xs) \<and>
   outcome (Map \<lparr>data = xs, workers = 1\<rparr> zero f (m1 @ fair (length xs))) = Return (map f xs) \<and>
   outcome (Map \<lparr>data = xs, workers = int (length xs)\<rparr> zero f (m2 @ fair (length xs))) = Return (map f xs) \<and>
   outcome (Filter \<lparr>data = xs, workers = w\<rparr> p (f0 @ fair (length xs))) = Return (filter p xs) \<and>
   outcome (Filter \<lparr>data = xs, workers = 1\<rparr> p (f1 @ fair (length xs))) = Return (filter p xs) \<and>
   outcome (Filter \<lparr>data = xs, workers = int (length xs)\<rparr> p (f2 @ fair (length xs))) = Return (filter p xs) \<and>
   outcome (Each \<lparr>data = xs, workers = w\<rparr> (e0 @ fair (length xs))) = Return () \<and>
   outcome (Each \<lparr>data = xs, workers = 1\<rparr> (e1 @ fair (length xs))) = Return () \<and>
   outcome (Each \<lparr>data = xs, workers = int (length xs)\<rparr> (e2 @ fair (length xs))) = Return ()"
proof (intro impI conjI)
  assume "outcome (Map \<lparr>data = xs, workers = w\<rparr> zero f m0) = Return a \<and> outcome (Map \<lparr>data = xs, workers = 1\<rparr> zero f m1) = Return b \<and>
    outcome (Map \<lparr>data = xs, workers = int (length xs)\<rparr> zero f m2) = Return c"
  then have "a = map f xs" "b = map f xs" "c = map f xs"
    by (auto dest: Map_Return)
  then show "a = b" and "a = c" by simp_all
next
  assume "outcome (Filter \<lparr>data = xs, workers = w\<rparr> p f0) = Return ys \<and> outcome (Filter \<lparr>data = xs, workers = 1\<rparr> p f1) = Return ys' \<and>
    outcome (Filter \<lparr>data = xs, workers = int (length xs)\<rparr> p f2) = Return ys''"
  then have "ys = filter p xs" "ys' = filter p xs" "ys'' = filter p xs"
    by (auto dest: Filter_Return)
  then show "ys = ys'" and "ys = ys''" by simp_all
next
  assume e: "outcome (Each \<lparr>data = xs, workers = w\<rparr> e0) = Return u \<and> outcome (Each \<lparr>data = xs, workers = 1\<rparr> e1) = Return u' \<and>
    outcome (Each \<lparr>data = xs, workers = int (length xs)\<rparr> e2) = Return u''"
  from e Each_elements[of "\<lparr>data = xs, workers = w\<rparr>" e0 u]
  show "mset (map (\<lambda>i. xs ! i) (applied (Each \<lparr>data = xs, workers = w\<rparr> e0))) = mset xs" by simp
  from e Each_elements[of "\<lparr>data = xs, workers = 1\<rparr>" e1 u']
  show "mset (map (\<lambda>i. xs ! i) (applied (Each \<lparr>data = xs, workers = 1\<rparr> e1))) = mset xs" by simp
  from e Each_elements[of "\<lparr>data = xs, workers = int (length xs)\<rparr>" e2 u'']
  show "mset (map (\<lambda>i. xs ! i) (applied (Each \<lparr>data = xs, workers = int (length xs)\<rparr> e2))) = mset xs" by simp
next
  assume w: "1 \<le> w \<and> w \<le> int (length xs)"
  then have w0: "0 \<le> workers \<lparr>data = xs, workers = w\<rparr>" by simp
  have w1: "0 \<le> workers \<lparr>data = xs, workers = 1\<rparr>" and wn: "0 \<le> workers \<lparr>data = xs, workers = int (length xs)\<rparr>" by simp_all
  from Map_fair[OF w0, of zero f m0]
  show "outcome (Map \<lparr>data = xs, workers = w\<rparr> zero f (m0 @ fair (length xs))) = Return (map f xs)" by simp
  from Map_fair[OF w1, of zero f m1]
  show "outcome (Map \<lparr>data = xs, workers = 1\<rparr> zero f (m1 @ fair (length xs))) = Return (map f xs)" by simp
  from Map_fair[OF wn, of zero f m2]
  show "outcome (Map \<lparr>data = xs, workers = int (length xs)\<rparr> zero f (m2 @ fair (length xs))) = Return (map f xs)" by simp
  from Filter_fair[OF w0, of p f0]
  show "outcome (Filter \<lparr>data = xs, workers = w\<rparr> p (f0 @ fair (length xs))) = Return (filter p xs)" by simp
  from Filter_fair[OF w1, of p f1]
  show "outcome (Filter \<lparr>data = xs, workers = 1\<rparr> p (f1 @ fair (length xs))) = Return (filter p xs)" by simp
  from Filter_fair[OF wn, of p f2]
  show "outcome (Filter \<lparr>data = xs, workers = int (length xs)\<rparr> p (f2 @ fair (length xs))) = Return (filter p xs)" by simp
  from Each_fair[OF w0, of e0]
  show "outcome (Each \<lparr>data = xs, workers = w\<rparr> (e0 @ fair (length xs))) = Return ()" by simp
  from Each_fair[OF w1, of e1]
  show "outcome (Each \<lparr>data = xs, workers = 1\<rparr> (e1 @ fair (length xs))) = Return ()" by simp
  from Each_fair[OF wn, of e2]
  show "outcome (Each \<lparr>data = xs, workers = int (length xs)\<rparr> (e2 @ fair (length xs))) = Return ()" by simp
qed

theorem worker_count_independent_witness:
  "(1 :: int) \<le> 2 \<and> 2 \<le> int (length [1, 2, 3 :: int]) \<and>
   outcome (Map \<lparr>data = [1, 2, 3 :: int], workers = 2\<rparr> 0 (\<lambda>x. x * 2) [2, 2, 2, 2, 0, 1, 1, 0, 0, 0, 0, 1]) = Return [2, 4, 6] \<and>
   outcome (Map \<lparr>data = [1, 2, 3 :: int], workers = 1\<rparr> 0 (\<lambda>x. x * 2) [1, 1, 1, 1, 0, 0, 0, 0, 0, 0, 0]) = Return [2, 4, 6] \<and>
   outcome (Map \<lparr>data = [1, 2, 3 :: int], workers = 3\<rparr> 0 (\<lambda>x. x * 2) [3, 3, 3, 3, 0, 1, 2, 2, 1, 0, 0, 1, 2]) = Return [2, 4, 6] \<and>
   outcome (Filter \<lparr>data = [1, 2, 3 :: int], workers = 2\<rparr> (\<lambda>x. 1 < x) [2, 2, 2, 2, 0, 1, 1, 0, 0, 0, 0, 1]) = Return [2, 3] \<and>
   outcome (Filter \<lparr>data = [1, 2, 3 :: int], workers = 1\<rparr> (\<lambda>x. 1 < x) [1, 1, 1, 1, 0, 0, 0, 0, 0, 0, 0]) = Return [2, 3] \<and>
   outcome (Filter \<lparr>data = [1, 2, 3 :: int], workers = 3\<rparr> (\<lambda>x. 1 < x) [3, 3, 3, 3, 0, 1, 2, 2, 1, 0, 0, 1, 2]) = Return [2, 3] \<and>
   Each \<lparr>data = [1, 2, 3 :: int], workers = 2\<rparr> [2, 2, 2, 2, 0, 1, 1, 0, 0, 0, 0, 1] = Call (Return ()) [0, 1, 2] [1, 0, 2] \<and>
   Each \<lparr>data = [1, 2, 3 :: int], workers = 1\<rparr> [1, 1, 1, 1, 0, 0, 0, 0, 0, 0, 0] = Call (Return ()) [0, 1, 2] [0, 1, 2] \<and>
   Each \<lparr>data = [1, 2, 3 :: int], workers = 3\<rparr> [3, 3, 3, 3, 0, 1, 2, 2, 1, 0, 0, 1, 2] = Call (Return ()) [0, 1, 2] [2, 1, 0] \<and>
   mset (map (\<lambda>i. [1, 2, 3 :: int] ! i) (applied (Each \<lparr>data = [1, 2, 3 :: int], workers = 2\<rparr> [2, 2, 2, 2, 0, 1, 1, 0, 0, 0, 0, 1]))) = mset [1, 2, 3] \<and>
   mset (map (\<lambda>i. [1, 2, 3 :: int] ! i) (applied (Each \<lparr>data = [1, 2, 3 :: int], workers = 1\<rparr> [1, 1, 1, 1, 0, 0, 0, 0, 0, 0, 0]))) = mset [1, 2, 3] \<and>
   mset (map (\<lambda>i. [1, 2, 3 :: int] ! i) (applied (Each \<lparr>data = [1, 2, 3 :: int], workers = 3\<rparr> [3, 3, 3, 3, 0, 1, 2, 2, 1, 0, 0, 1, 2]))) = mset [1, 2, 3] \<and>
   outcome (Map \<lparr>data = [1, 2, 3 :: int], workers = 2\<rparr> 0 (\<lambda>x. x * 2) ([2, 2, 2, 2, 0, 1, 1, 0, 0, 0, 0, 1] @ fair (length [1, 2, 3 :: int]))) = Return [2, 4, 6] \<and>
   outcome (Filter \<lparr>data = [1, 2, 3 :: int], workers = 2\<rparr> (\<lambda>x. 1 < x) ([2, 2, 2, 2, 0, 1, 1, 0, 0, 0, 0, 1] @ fair (length [1, 2, 3 :: int]))) = Return [2, 3] \<and>
   outcome (Each \<lparr>data = [1, 2, 3 :: int], workers = 2\<rparr> ([2, 2, 2, 2, 0, 1, 1, 0, 0, 0, 0, 1] @ fair (length [1, 2, 3 :: int]))) = Return ()"
proof -
  have m: "outcome (Map \<lparr>data = [1, 2, 3 :: int], workers = 2\<rparr> 0 (\<lambda>x. x * 2) [2, 2, 2, 2, 0, 1, 1, 0, 0, 0, 0, 1]) = Return [2, 4, 6]"
    "outcome (Map \<lparr>data = [1, 2, 3 :: int], workers = 1\<rparr> 0 (\<lambda>x. x * 2) [1, 1, 1, 1, 0, 0, 0, 0, 0, 0, 0]) = Return [2, 4, 6]"
    "outcome (Map \<lparr>data = [1, 2, 3 :: int], workers = 3\<rparr> 0 (\<lambda>x. x * 2) [3, 3, 3, 3, 0, 1, 2, 2, 1, 0, 0, 1, 2]) = Return [2, 4, 6]"
    by code_simp+
  have f: "outcome (Filter \<lparr>data = [1, 2, 3 :: int], workers = 2\<rparr> (\<lambda>x. 1 < x) [2, 2, 2, 2, 0, 1, 1, 0, 0, 0, 0, 1]) = Return [2, 3]"
    "outcome (Filter \<lparr>data = [1, 2, 3 :: int], workers = 1\<rparr> (\<lambda>x. 1 < x) [1, 1, 1, 1, 0, 0, 0, 0, 0, 0, 0]) = Return [2, 3]"
    "outcome (Filter \<lparr>data = [1, 2, 3 :: int], workers = 3\<rparr> (\<lambda>x. 1 < x) [3, 3, 3, 3, 0, 1, 2, 2, 1, 0, 0, 1, 2]) = Return [2, 3]"
    by code_simp+
  have e: "Each \<lparr>data = [1, 2, 3 :: int], workers = 2\<rparr> [2, 2, 2, 2, 0, 1, 1, 0, 0, 0, 0, 1] = Call (Return ()) [0, 1, 2] [1, 0, 2]"
    "Each \<lparr>data = [1, 2, 3 :: int], workers = 1\<rparr> [1, 1, 1, 1, 0, 0, 0, 0, 0, 0, 0] = Call (Return ()) [0, 1, 2] [0, 1, 2]"
    "Each \<lparr>data = [1, 2, 3 :: int], workers = 3\<rparr> [3, 3, 3, 3, 0, 1, 2, 2, 1, 0, 0, 1, 2] = Call (Return ()) [0, 1, 2] [2, 1, 0]"
    by code_simp+
  have w: "(1 :: int) \<le> 2 \<and> 2 \<le> int (length [1, 2, 3 :: int])" by simp
  from worker_count_independent[where w = 2 and xs = "[1, 2, 3 :: int]" and zero = 0
      and f = "\<lambda>x. x * 2" and p = "\<lambda>x. 1 < x"
      and ?m0.0 = "[2, 2, 2, 2, 0, 1, 1, 0, 0, 0, 0, 1]" and ?m1.0 = "[1, 1, 1, 1, 0, 0, 0, 0, 0, 0, 0]" and ?m2.0 = "[3, 3, 3, 3, 0, 1, 2, 2, 1, 0, 0, 1, 2]"
      and ?f0.0 = "[2, 2, 2, 2, 0, 1, 1, 0, 0, 0, 0, 1]" and ?f1.0 = "[1, 1, 1, 1, 0, 0, 0, 0, 0, 0, 0]" and ?f2.0 = "[3, 3, 3, 3, 0, 1, 2, 2, 1, 0, 0, 1, 2]"
      and ?e0.0 = "[2, 2, 2, 2, 0, 1, 1, 0, 0, 0, 0, 1]" and ?e1.0 = "[1, 1, 1, 1, 0, 0, 0, 0, 0, 0, 0]" and ?e2.0 = "[3, 3, 3, 3, 0, 1, 2, 2, 1, 0, 0, 1, 2]"
      and a = "[2, 4, 6]" and b = "[2, 4, 6]" and c = "[2, 4, 6]"
      and ys = "[2, 3]" and ys' = "[2, 3]" and ys'' = "[2, 3]"] w m f e
  show ?thesis by simp
qed

text \<open>
  C10: whenever \<open>All(f)\<close> and \<open>Any(not f)\<close> both return, under any two schedules and any
  worker count, the one is the negation of the other; with a non-negative worker count
  both do return, after any steps followed by the fair schedule; on an empty collection
  they return true and false.
\<close>

theorem All_is_not_Any_not:
  "(outcome (All' s f sched) = Return a \<and> outcome (Any s (\<lambda>x. \<not> f x) sched') = Return b \<longrightarrow>
      a = (\<not> b)) \<and>
   (0 \<le> workers s \<longrightarrow>
      (\<exists>a b. outcome (All' s f (sched @ fair (length (data s)))) = Return a \<and>
         outcome (Any s (\<lambda>x. \<not> f x) (sched' @ fair (length (data s)))) = Return b \<and>
         a = (\<not> b))) \<and>
   (data s = [] \<longrightarrow>
      outcome (All' s f sched) = Return True \<and>
      outcome (Any s (\<lambda>x. \<not> f x) sched') = Return False)"
proof (intro conjI impI)
  assume "outcome (All' s f sched) = Return a \<and> outcome (Any s (\<lambda>x. \<not> f x) sched') = Return b"
  with All_Return[of s f sched a] Any_Return[of s "\<lambda>x. \<not> f x" sched' b]
  show "a = (\<not> b)" by blast
next
  assume w: "0 \<le> workers s"
  have "(\<forall>x \<in> set (data s). f x) = (\<not> (\<exists>x \<in> set (data s). \<not> f x))" by blast
  with All_fair[OF w, of f sched] Any_fair[OF w, of "\<lambda>x. \<not> f x" sched']
  show "\<exists>a b. outcome (All' s f (sched @ fair (length (data s)))) = Return a \<and>
      outcome (Any s (\<lambda>x. \<not> f x) (sched' @ fair (length (data s)))) = Return b \<and> a = (\<not> b)"
    by blast
next
  assume "data s = []"
  then show "outcome (All' s f sched) = Return True"
    and "outcome (Any s (\<lambda>x. \<not> f x) sched') = Return False"
    by (simp_all add: All'_def Any_def)
qed

theorem All_is_not_Any_not_witness:
  "outcome (All' \<lparr>data = [1, 2, 3, 4, 5 :: int], workers = 2\<rparr> (\<lambda>x. 3 < x) [2, 2, 2, 2, 2, 2, 0, 0]) = Return False \<and>
   outcome (Any \<lparr>data = [1, 2, 3, 4, 5 :: int], workers = 2\<rparr> (\<lambda>x. \<not> 3 < x) [2, 2, 2, 2, 2, 2, 1, 1]) = Return True \<and>
   False = (\<not> True) \<and>
   0 \<le> workers \<lparr>data = [1, 2, 3, 4, 5 :: int], workers = 2\<rparr> \<and>
   (\<exists>a b.
      outcome (All' \<lparr>data = [1, 2, 3, 4, 5 :: int], workers = 2\<rparr> (\<lambda>x. 3 < x) ([2, 2, 2, 2, 2, 2, 0, 0] @ fair (length (data \<lparr>data = [1, 2, 3, 4, 5 :: int], workers = 2\<rparr>)))) =
        Return a \<and>
      outcome (Any \<lparr>data = [1, 2, 3, 4, 5 :: int], workers = 2\<rparr> (\<lambda>x. \<not> 3 < x) ([2, 2, 2, 2, 2, 2, 1, 1] @ fair (length (data \<lparr>data = [1, 2, 3, 4, 5 :: int], workers = 2\<rparr>)))) =
        Return b \<and> a = (\<not> b)) \<and>
   data \<lparr>data = [] :: int list, workers = 2\<rparr> = [] \<and>
   outcome (All' \<lparr>data = [] :: int list, workers = 2\<rparr> (\<lambda>x. 3 < x) [2, 0]) = Return True \<and>
   outcome (Any \<lparr>data = [] :: int list, workers = 2\<rparr> (\<lambda>x. \<not> 3 < x) [2, 1]) = Return False"
proof -
  have a: "outcome (All' \<lparr>data = [1, 2, 3, 4, 5 :: int], workers = 2\<rparr> (\<lambda>x. 3 < x) [2, 2, 2, 2, 2, 2, 0, 0]) = Return False"
    by code_simp
  have b: "outcome (Any \<lparr>data = [1, 2, 3, 4, 5 :: int], workers = 2\<rparr> (\<lambda>x. \<not> 3 < x) [2, 2, 2, 2, 2, 2, 1, 1]) = Return True"
    by code_simp
  have w: "0 \<le> workers \<lparr>data = [1, 2, 3, 4, 5 :: int], workers = 2\<rparr>" and e: "data \<lparr>data = [] :: int list, workers = 2\<rparr> = []" by simp_all
  from All_is_not_Any_not[of "\<lparr>data = [1, 2, 3, 4, 5 :: int], workers = 2\<rparr>" "\<lambda>x. 3 < x"
      "[2, 2, 2, 2, 2, 2, 0, 0]" False "[2, 2, 2, 2, 2, 2, 1, 1]" True]
    All_is_not_Any_not[of "\<lparr>data = [] :: int list, workers = 2\<rparr>" "\<lambda>x. 3 < x" "[2, 0]" True "[2, 1]" False] a b w e
  show ?thesis by blast
qed

end
